theory Spec2Isabelle
  imports Main
begin

section \<open>Configuration constants (tetris.py, lines 7-12)\<close>

definition COLS :: int where
  "COLS = 10"

definition VISIBLE_ROWS :: int where
  "VISIBLE_ROWS = 20"

definition HIDDEN_ROWS :: int where
  "HIDDEN_ROWS = 4"

definition TOTAL_ROWS :: int where
  "TOTAL_ROWS = VISIBLE_ROWS + HIDDEN_ROWS"

section \<open>Data model\<close>

text \<open>
  A board and a shape are Python lists of lists of integers. Reading or writing a list
  outside its range raises \<open>IndexError\<close> in Python; the model returns \<open>Inl IndexError\<close>.
\<close>

datatype error = IndexError

type_synonym board = "int list list"

type_synonym shape = "int list list"

text \<open>
  Python's index into a list of length \<open>n\<close>: a negative index counts from the end, and
  an index outside the list raises.
\<close>

definition py_index :: "nat \<Rightarrow> int \<Rightarrow> error + nat" where
  "py_index n i =
     (let j = (if i < 0 then int n + i else i)
      in if 0 \<le> j \<and> j < int n then Inr (nat j) else Inl IndexError)"

text \<open>Python's \<open>xs[i]\<close> and \<open>xs[i] = v\<close>.\<close>

definition py_get :: "'a list \<Rightarrow> int \<Rightarrow> error + 'a" where
  "py_get xs i = (case py_index (length xs) i of Inl e \<Rightarrow> Inl e | Inr j \<Rightarrow> Inr (xs ! j))"

definition py_set :: "'a list \<Rightarrow> int \<Rightarrow> 'a \<Rightarrow> error + 'a list" where
  "py_set xs i v = (case py_index (length xs) i of Inl e \<Rightarrow> Inl e | Inr j \<Rightarrow> Inr (xs[j := v]))"

text \<open>Python's \<open>board[by][bx]\<close>.\<close>

definition cell_at :: "board \<Rightarrow> int \<Rightarrow> int \<Rightarrow> error + int" where
  "cell_at board by bx =
     (case py_get board by of Inl e \<Rightarrow> Inl e | Inr row \<Rightarrow> py_get row bx)"

text \<open>The boards the engine works on: \<open>TOTAL_ROWS\<close> rows of \<open>COLS\<close> cells.\<close>

definition wf_board :: "board \<Rightarrow> bool" where
  "wf_board board \<longleftrightarrow>
     int (length board) = TOTAL_ROWS \<and> list_all (\<lambda>row. int (length row) = COLS) board"

section \<open>collide (tetris.py, lines 70-87)\<close>

text \<open>
  The inner loop \<open>for x, cell in enumerate(row)\<close>, from column index \<open>x\<close> on; \<open>by\<close> is
  \<open>off_y + y\<close> of the enclosing iteration. \<open>Inr True\<close> is the early \<open>return True\<close>,
  \<open>Inr False\<close> means the row was scanned to its end.
\<close>

fun collide_row :: "board \<Rightarrow> int \<Rightarrow> int \<Rightarrow> int \<Rightarrow> int list \<Rightarrow> error + bool" where
  "collide_row board off_x by x [] = Inr False"
| "collide_row board off_x by x (cell # row) =
     (if cell \<noteq> 0 then
        (let bx = off_x + x in
         if bx < 0 \<or> bx \<ge> COLS then Inr True
         else if by \<ge> TOTAL_ROWS then Inr True
         else if by \<ge> 0 then
           (case cell_at board by bx of
              Inl e \<Rightarrow> Inl e
            | Inr v \<Rightarrow> if v \<noteq> 0 then Inr True
                       else collide_row board off_x by (x + 1) row)
         else collide_row board off_x by (x + 1) row)
      else collide_row board off_x by (x + 1) row)"

text \<open>The outer loop \<open>for y, row in enumerate(shape)\<close>, from row index \<open>y\<close> on.\<close>

fun collide_rows :: "board \<Rightarrow> int \<Rightarrow> int \<Rightarrow> int \<Rightarrow> shape \<Rightarrow> error + bool" where
  "collide_rows board off_x off_y y [] = Inr False"
| "collide_rows board off_x off_y y (row # rows) =
     (case collide_row board off_x (off_y + y) 0 row of
        Inl e \<Rightarrow> Inl e
      | Inr hit \<Rightarrow> if hit then Inr True
                   else collide_rows board off_x off_y (y + 1) rows)"

definition collide :: "board \<Rightarrow> shape \<Rightarrow> int \<times> int \<Rightarrow> error + bool" where
  "collide board shape offset =
     (case offset of (off_x, off_y) \<Rightarrow> collide_rows board off_x off_y 0 shape)"

text \<open>
  The condition under which one shape cell, at shape coordinates \<open>(x, y)\<close>, blocks the
  placement at \<open>(off_x, off_y)\<close>.
\<close>

definition cell_blocked :: "board \<Rightarrow> shape \<Rightarrow> int \<Rightarrow> int \<Rightarrow> nat \<Rightarrow> nat \<Rightarrow> bool" where
  "cell_blocked board shape off_x off_y x y \<longleftrightarrow>
     shape ! y ! x \<noteq> 0 \<and>
     (off_x + int x < 0 \<or> off_x + int x \<ge> COLS \<or> off_y + int y \<ge> TOTAL_ROWS \<or>
      (off_y + int y \<ge> 0 \<and> board ! nat (off_y + int y) ! nat (off_x + int x) \<noteq> 0))"

section \<open>The piece catalog and rotation (tetris.py, lines 37-64)\<close>

text \<open>The keys of the dictionary \<open>SHAPES\<close>.\<close>

datatype ptype = PieceI | PieceJ | PieceL | PieceO | PieceS | PieceT | PieceZ

fun SHAPES :: "ptype \<Rightarrow> shape" where
  "SHAPES PieceI = [[0,0,0,0],
                    [1,1,1,1],
                    [0,0,0,0],
                    [0,0,0,0]]"
| "SHAPES PieceJ = [[2,0,0],
                    [2,2,2],
                    [0,0,0]]"
| "SHAPES PieceL = [[0,0,3],
                    [3,3,3],
                    [0,0,0]]"
| "SHAPES PieceO = [[4,4],
                    [4,4]]"
| "SHAPES PieceS = [[0,5,5],
                    [5,5,0],
                    [0,0,0]]"
| "SHAPES PieceT = [[0,6,0],
                    [6,6,6],
                    [0,0,0]]"
| "SHAPES PieceZ = [[7,7,0],
                    [0,7,7],
                    [0,0,0]]"

text \<open>
  Python's \<open>zip(*rows)\<close>: the columns of \<open>rows\<close>, as many as the shortest row has
  cells; no column at all when there is no row.
\<close>

function zip_star :: "'a list list \<Rightarrow> 'a list list" where
  "zip_star rows =
     (if rows = [] \<or> [] \<in> set rows then []
      else map hd rows # zip_star (map tl rows))"
  by pat_completeness auto
termination
proof (relation "measure (\<lambda>rows. length (hd rows))")
  show "wf (measure (\<lambda>rows :: 'a list list. length (hd rows)))"
    by simp
next
  fix rows :: "'a list list"
  assume "\<not> (rows = [] \<or> [] \<in> set rows)"
  then have "rows \<noteq> []" and "hd rows \<noteq> []"
    by (cases rows; force)+
  then show "(map tl rows, rows) \<in> measure (\<lambda>rows. length (hd rows))"
    by (simp add: hd_map)
qed

text \<open>\<open>shape[::-1]\<close> reverses the rows; \<open>list(row)\<close> turns each tuple into a list.\<close>

definition rotate :: "shape \<Rightarrow> shape" where
  "rotate shape = zip_star (rev shape)"

section \<open>new_board, merge, clear_lines (tetris.py, lines 66-107)\<close>

definition new_board :: "board" where
  "new_board = replicate (nat TOTAL_ROWS) (replicate (nat COLS) 0)"

text \<open>
  Python's \<open>board[by][bx] = cell\<close>: reads the row \<open>board[by]\<close> and writes into it. The
  rows of a board are separate lists in every state of the engine (\<open>new_board\<close> and
  \<open>clear_lines\<close> build each row anew), so the write changes that one row only.
\<close>

definition set_cell :: "board \<Rightarrow> int \<Rightarrow> int \<Rightarrow> int \<Rightarrow> error + board" where
  "set_cell board by bx v =
     (case py_get board by of
        Inl e \<Rightarrow> Inl e
      | Inr row \<Rightarrow>
          (case py_set row bx v of
             Inl e \<Rightarrow> Inl e
           | Inr row' \<Rightarrow> py_set board by row'))"

fun merge_row :: "board \<Rightarrow> int \<Rightarrow> int \<Rightarrow> int \<Rightarrow> int list \<Rightarrow> error + board" where
  "merge_row board off_x by x [] = Inr board"
| "merge_row board off_x by x (cell # row) =
     (if cell \<noteq> 0 then
        (let bx = off_x + x in
         if 0 \<le> by \<and> by < TOTAL_ROWS \<and> 0 \<le> bx \<and> bx < COLS then
           (case set_cell board by bx cell of
              Inl e \<Rightarrow> Inl e
            | Inr board' \<Rightarrow> merge_row board' off_x by (x + 1) row)
         else merge_row board off_x by (x + 1) row)
      else merge_row board off_x by (x + 1) row)"

fun merge_rows :: "board \<Rightarrow> int \<Rightarrow> int \<Rightarrow> int \<Rightarrow> shape \<Rightarrow> error + board" where
  "merge_rows board off_x off_y y [] = Inr board"
| "merge_rows board off_x off_y y (row # rows) =
     (case merge_row board off_x (off_y + y) 0 row of
        Inl e \<Rightarrow> Inl e
      | Inr board' \<Rightarrow> merge_rows board' off_x off_y (y + 1) rows)"

text \<open>The board is changed in place by the source; the model returns the new board.\<close>

definition merge :: "shape \<Rightarrow> board \<Rightarrow> int \<times> int \<Rightarrow> error + board" where
  "merge shape board offset =
     (case offset of (off_x, off_y) \<Rightarrow> merge_rows board off_x off_y 0 shape)"

text \<open>
  \<open>range(cleared)\<close> is empty when \<open>cleared\<close> is negative, as \<open>nat cleared\<close> is \<open>0\<close>
  then; each iteration inserts a fresh row of zeros at index 0.
\<close>

definition clear_lines :: "board \<Rightarrow> board \<times> int" where
  "clear_lines board =
     (let new_rows = filter (\<lambda>row. list_ex (\<lambda>cell. cell = 0) row) board;
          cleared = TOTAL_ROWS - int (length new_rows)
      in (((\<lambda>rows. replicate (nat COLS) 0 # rows) ^^ nat cleared) new_rows, cleared))"

section \<open>The engine: class Tetris (tetris.py, lines 142-243)\<close>

text \<open>
  The fields of a \<open>Tetris\<close> object; \<open>pos_x\<close> and \<open>pos_y\<close> are \<open>self.x\<close> and \<open>self.y\<close>.
  The drawing surface is left out. \<open>saved\<close> is the effect of \<open>save_stats\<close>: the list of
  the records written to the stats file, oldest first. \<open>save_stats\<close> catches every
  exception of its own, so it never fails. Console output is not modelled.
\<close>

record game =
  board :: board
  score :: int
  level :: int
  lines :: int
  high_level :: int
  high_lines :: int
  game_over :: bool
  paused :: bool
  next_type :: ptype
  current_type :: ptype
  current_shape :: shape
  pos_x :: int
  pos_y :: int
  saved :: "(int \<times> int) list"

definition save_stats :: "game \<Rightarrow> game" where
  "save_stats s = s\<lparr>saved := saved s @ [(high_level s, high_lines s)]\<rparr>"

text \<open>
  \<open>find_spawn_x_order\<close>: the loop \<open>for i in range(1, COLS)\<close> is a fold over
  \<open>[1..COLS - 1]\<close>; \<open>//\<close> is floor division, as \<open>div\<close> on \<open>int\<close> is.
\<close>

definition find_spawn_x_order :: "int \<Rightarrow> int list" where
  "find_spawn_x_order shape_width =
     (let center = (COLS - shape_width) div 2;
          order = fold (\<lambda>i order.
                    let left = center - i;
                        right = center + i;
                        order = (if left \<ge> 0 then order @ [left] else order)
                    in if right \<le> COLS - shape_width \<and> right \<noteq> left
                       then order @ [right] else order)
                  [1..COLS - 1] [center]
      in filter (\<lambda>x. 0 \<le> x \<and> x \<le> COLS - shape_width) order)"

text \<open>
  The loop \<open>for spawn_x in spawn_x_candidates\<close> of \<open>spawn_new\<close>: the first candidate at
  which the shape does not collide, or \<open>None\<close> when the loop runs to its end.
\<close>

fun spawn_search :: "board \<Rightarrow> shape \<Rightarrow> int \<Rightarrow> int list \<Rightarrow> error + int option" where
  "spawn_search b shape spawn_y [] = Inr None"
| "spawn_search b shape spawn_y (spawn_x # candidates) =
     (case collide b shape (spawn_x, spawn_y) of
        Inl e \<Rightarrow> Inl e
      | Inr hit \<Rightarrow> if \<not> hit then Inr (Some spawn_x)
                   else spawn_search b shape spawn_y candidates)"

text \<open>
  The placement part of \<open>spawn_new\<close> (lines 173-185) for a shape: the anchor found, or
  \<open>None\<close> when no candidate is free. \<open>shape[0]\<close> raises on a shape without rows.
\<close>

definition spawn_place :: "board \<Rightarrow> shape \<Rightarrow> error + (int \<times> int) option" where
  "spawn_place b shape =
     (case shape of
        [] \<Rightarrow> Inl IndexError
      | row0 # _ \<Rightarrow>
          (let shape_h = int (length shape);
               shape_w = int (length row0);
               spawn_y = (if HIDDEN_ROWS - shape_h < 0 then 0 else HIDDEN_ROWS - shape_h)
           in case spawn_search b shape spawn_y (find_spawn_x_order shape_w) of
                Inl e \<Rightarrow> Inl e
              | Inr None \<Rightarrow> Inr None
              | Inr (Some spawn_x) \<Rightarrow> Inr (Some (spawn_x, spawn_y))))"

text \<open>The end of \<open>spawn_new\<close> (lines 188-197), reached when no candidate is free.\<close>

definition spawn_failed :: "game \<Rightarrow> game" where
  "spawn_failed s =
     (let s = s\<lparr>game_over := True\<rparr>;
          changed = False;
          (s, changed) = (if level s > high_level s
                          then (s\<lparr>high_level := level s\<rparr>, True) else (s, changed));
          (s, changed) = (if lines s > high_lines s
                          then (s\<lparr>high_lines := lines s\<rparr>, True) else (s, changed))
      in if changed then save_stats s else s)"

text \<open>
  \<open>spawn_new\<close>; \<open>draw\<close> is the value \<open>random.choice\<close> returns for the new next piece.
\<close>

definition spawn_new :: "game \<Rightarrow> ptype \<Rightarrow> error + game" where
  "spawn_new s draw =
     (let s = s\<lparr>current_type := next_type s\<rparr>;
          s = s\<lparr>current_shape := SHAPES (current_type s)\<rparr>;
          s = s\<lparr>next_type := draw\<rparr>
      in case spawn_place (board s) (current_shape s) of
           Inl e \<Rightarrow> Inl e
         | Inr (Some (spawn_x, spawn_y)) \<Rightarrow> Inr (s\<lparr>pos_x := spawn_x, pos_y := spawn_y\<rparr>)
         | Inr None \<Rightarrow> Inr (spawn_failed s))"

text \<open>
  The constructor: \<open>hl\<close> and \<open>hli\<close> are what \<open>load_stats\<close> returns, \<open>draw0\<close> and
  \<open>draw1\<close> the two random choices. The piece fields do not exist before the first
  \<open>spawn_new\<close>, which sets them on the empty board; the model starts them at the
  first piece, unplaced.
\<close>

definition tetris_init :: "int \<Rightarrow> int \<Rightarrow> ptype \<Rightarrow> ptype \<Rightarrow> error + game" where
  "tetris_init hl hli draw0 draw1 =
     spawn_new \<lparr>board = new_board, score = 0, level = 1, lines = 0,
                high_level = hl, high_lines = hli, game_over = False, paused = False,
                next_type = draw0, current_type = draw0, current_shape = SHAPES draw0,
                pos_x = 0, pos_y = 0, saved = []\<rparr> draw1"

definition rotate_piece :: "game \<Rightarrow> error + game" where
  "rotate_piece s =
     (let new_shape = rotate (current_shape s)
      in case collide (board s) new_shape (pos_x s, pos_y s) of
           Inl e \<Rightarrow> Inl e
         | Inr hit \<Rightarrow> if \<not> hit then Inr (s\<lparr>current_shape := new_shape\<rparr>) else Inr s)"

definition move :: "game \<Rightarrow> int \<Rightarrow> error + game" where
  "move s dx =
     (case collide (board s) (current_shape s) (pos_x s + dx, pos_y s) of
        Inl e \<Rightarrow> Inl e
      | Inr hit \<Rightarrow> if \<not> hit then Inr (s\<lparr>pos_x := pos_x s + dx\<rparr>) else Inr s)"

text \<open>
  The body of \<open>if cleared:\<close> in \<open>lock_piece\<close> (lines 225-237); \<open>old_level\<close> is
  assigned there and never read.
\<close>

definition count_cleared :: "game \<Rightarrow> int \<Rightarrow> game" where
  "count_cleared s cleared =
     (let s = s\<lparr>lines := lines s + cleared\<rparr>;
          s = s\<lparr>score := score s + (100 * cleared) * level s\<rparr>;
          s = s\<lparr>level := 1 + lines s div 10\<rparr>;
          changed = False;
          (s, changed) = (if lines s > high_lines s
                          then (s\<lparr>high_lines := lines s\<rparr>, True) else (s, changed));
          (s, changed) = (if level s > high_level s
                          then (s\<lparr>high_level := level s\<rparr>, True) else (s, changed))
      in if changed then save_stats s else s)"

text \<open>
  \<open>lock_piece\<close>. Python's \<open>if cleared:\<close> takes the branch for every nonzero value.
\<close>

definition lock_piece :: "game \<Rightarrow> ptype \<Rightarrow> error + game" where
  "lock_piece s draw =
     (case merge (current_shape s) (board s) (pos_x s, pos_y s) of
        Inl e \<Rightarrow> Inl e
      | Inr merged \<Rightarrow>
          (let (new_rows, cleared) = clear_lines merged;
               s = s\<lparr>board := new_rows\<rparr>;
               s = (if cleared \<noteq> 0 then count_cleared s cleared else s)
           in spawn_new s draw))"

text \<open>\<open>soft_drop\<close> returns \<open>True\<close> when the piece moved and \<open>False\<close> when it locked.\<close>

definition soft_drop :: "game \<Rightarrow> ptype \<Rightarrow> error + (game \<times> bool)" where
  "soft_drop s draw =
     (case collide (board s) (current_shape s) (pos_x s, pos_y s + 1) of
        Inl e \<Rightarrow> Inl e
      | Inr hit \<Rightarrow>
          if \<not> hit then Inr (s\<lparr>pos_y := pos_y s + 1\<rparr>, True)
          else (case lock_piece s draw of Inl e \<Rightarrow> Inl e | Inr s' \<Rightarrow> Inr (s', False)))"

text \<open>
  The \<open>while\<close> loop of \<open>hard_drop\<close>. Nothing in the loop bounds the number of
  iterations, so the model is a partial function: \<open>None\<close> when the loop never ends.
\<close>

partial_function (option) hard_drop_loop :: "game \<Rightarrow> (error + game) option" where
  "hard_drop_loop s =
     (case collide (board s) (current_shape s) (pos_x s, pos_y s + 1) of
        Inl e \<Rightarrow> Some (Inl e)
      | Inr hit \<Rightarrow> if \<not> hit then hard_drop_loop (s\<lparr>pos_y := pos_y s + 1\<rparr>)
                   else Some (Inr s))"

declare hard_drop_loop.simps [code]

definition hard_drop :: "game \<Rightarrow> ptype \<Rightarrow> (error + game) option" where
  "hard_drop s draw =
     (case hard_drop_loop s of
        None \<Rightarrow> None
      | Some (Inl e) \<Rightarrow> Some (Inl e)
      | Some (Inr s') \<Rightarrow> Some (lock_piece s' draw))"

definition update :: "game \<Rightarrow> ptype \<Rightarrow> error + game" where
  "update s draw =
     (if game_over s \<or> paused s then Inr s
      else (case soft_drop s draw of Inl e \<Rightarrow> Inl e | Inr (s', _) \<Rightarrow> Inr s'))"

section \<open>The commands of the main loop (tetris.py, lines 299-354)\<close>

text \<open>The statements of the R key (line 332).\<close>

definition reset :: "game \<Rightarrow> ptype \<Rightarrow> error + game" where
  "reset s draw =
     spawn_new (s\<lparr>board := new_board, score := 0, level := 1, lines := 0,
                  game_over := False\<rparr>) draw"

datatype key = K_d | K_s | K_r | K_ESCAPE | K_p | K_LEFT | K_RIGHT | K_UP | K_DOWN | K_SPACE
  | K_other

datatype event = QUIT | FALL_EVENT | KEYDOWN key | OTHER_EVENT

text \<open>The variables of \<open>main\<close> that the event loop reads and writes.\<close>

record main_state =
  the_game :: game
  running :: bool
  fall_speed :: int

definition speed_of :: "game \<Rightarrow> int" where
  "speed_of g = max (1000 - (level g - 1) * 60) 100"

definition with_game :: "main_state \<Rightarrow> error + game \<Rightarrow> (error + main_state) option" where
  "with_game ms r = (case r of Inl e \<Rightarrow> Some (Inl e) | Inr g \<Rightarrow> Some (Inr (ms\<lparr>the_game := g\<rparr>)))"

text \<open>The \<open>KEYDOWN\<close> branch: the \<open>elif\<close> chain in the order of the source.\<close>

definition handle_key :: "main_state \<Rightarrow> ptype \<Rightarrow> key \<Rightarrow> (error + main_state) option" where
  "handle_key ms draw k =
     (let g = the_game ms in
      if k = K_d then Some (Inr ms)
      else if k = K_s then Some (Inr (ms\<lparr>the_game := save_stats g\<rparr>))
      else if k = K_r then with_game ms (reset g draw)
      else if k = K_ESCAPE then Some (Inr (ms\<lparr>running := False\<rparr>))
      else if k = K_p then Some (Inr (ms\<lparr>the_game := g\<lparr>paused := \<not> paused g\<rparr>\<rparr>))
      else if \<not> game_over g \<and> \<not> paused g then
        (if k = K_LEFT then with_game ms (move g (- 1))
         else if k = K_RIGHT then with_game ms (move g 1)
         else if k = K_UP then with_game ms (rotate_piece g)
         else if k = K_DOWN then
           with_game ms (case soft_drop g draw of Inl e \<Rightarrow> Inl e | Inr (g', _) \<Rightarrow> Inr g')
         else if k = K_SPACE then
           (case hard_drop g draw of None \<Rightarrow> None | Some r \<Rightarrow> with_game ms r)
         else Some (Inr ms))
      else Some (Inr ms))"

text \<open>
  One event of the loop; \<open>draw\<close> is the random choice a spawn during this event takes
  (no event spawns twice). An exception leaves the loop: \<open>Inl\<close>.
\<close>

definition handle_event :: "main_state \<Rightarrow> ptype \<times> event \<Rightarrow> (error + main_state) option" where
  "handle_event ms de =
     (case de of (draw, ev) \<Rightarrow>
        (case ev of
           QUIT \<Rightarrow> Some (Inr (ms\<lparr>running := False\<rparr>))
         | FALL_EVENT \<Rightarrow>
             (let g = the_game ms in
              if \<not> paused g \<and> \<not> game_over g then
                (case update g draw of
                   Inl e \<Rightarrow> Some (Inl e)
                 | Inr g' \<Rightarrow>
                     (let new_speed = speed_of g'
                      in Some (Inr (ms\<lparr>the_game := g',
                                        fall_speed := (if new_speed \<noteq> fall_speed ms
                                                       then new_speed else fall_speed ms)\<rparr>))))
              else Some (Inr ms))
         | KEYDOWN k \<Rightarrow> handle_key ms draw k
         | OTHER_EVENT \<Rightarrow> Some (Inr ms)))"

text \<open>The start of \<open>main\<close>: the game is constructed and the timer set.\<close>

definition main_init :: "int \<Rightarrow> int \<Rightarrow> ptype \<Rightarrow> ptype \<Rightarrow> error + main_state" where
  "main_init hl hli draw0 draw1 =
     (case tetris_init hl hli draw0 draw1 of
        Inl e \<Rightarrow> Inl e
      | Inr g \<Rightarrow> Inr \<lparr>the_game = g, running = True, fall_speed = speed_of g\<rparr>)"

text \<open>
  One pass of \<open>for event in pygame.event.get()\<close>: every event of the batch is handled,
  also those that follow a \<open>QUIT\<close> or the escape key in the same batch.
\<close>

fun run_frame :: "main_state \<Rightarrow> (ptype \<times> event) list \<Rightarrow> (error + main_state) option" where
  "run_frame ms [] = Some (Inr ms)"
| "run_frame ms (de # des) =
     (case handle_event ms de of
        None \<Rightarrow> None
      | Some (Inl e) \<Rightarrow> Some (Inl e)
      | Some (Inr ms') \<Rightarrow> run_frame ms' des)"

text \<open>
  The loop \<open>while running\<close> over the batches of events that arrive, frame after frame,
  up to the state in which the loop is left or the batches given are used up. Drawing
  changes nothing in the state. The \<open>finally\<close> clause that follows the loop is
  \<open>main_exit\<close>.
\<close>

fun run_frames :: "main_state \<Rightarrow> (ptype \<times> event) list list \<Rightarrow> (error + main_state) option"
  where
  "run_frames ms [] = Some (Inr ms)"
| "run_frames ms (frame # frames) =
     (if \<not> running ms then Some (Inr ms)
      else (case run_frame ms frame of
              None \<Rightarrow> None
            | Some (Inl e) \<Rightarrow> Some (Inl e)
            | Some (Inr ms') \<Rightarrow> run_frames ms' frames))"

definition main_exit :: "main_state \<Rightarrow> main_state" where
  "main_exit ms = ms\<lparr>the_game := save_stats (the_game ms)\<rparr>"

section \<open>Sequences of engine operations\<close>

text \<open>
  The operations of the engine, called in any order: the methods of \<open>Tetris\<close>, the
  reset of the R key and the pause toggle of the P key.
\<close>

datatype op = Move int | Rotate | SoftDrop ptype | HardDrop ptype | Lock ptype | Reset ptype
  | Update ptype | TogglePause

fun apply_op :: "game \<Rightarrow> op \<Rightarrow> (error + game) option" where
  "apply_op s (Move dx) = Some (move s dx)"
| "apply_op s Rotate = Some (rotate_piece s)"
| "apply_op s (SoftDrop draw) =
     Some (case soft_drop s draw of Inl e \<Rightarrow> Inl e | Inr (s', _) \<Rightarrow> Inr s')"
| "apply_op s (HardDrop draw) = hard_drop s draw"
| "apply_op s (Lock draw) = Some (lock_piece s draw)"
| "apply_op s (Reset draw) = Some (reset s draw)"
| "apply_op s (Update draw) = Some (update s draw)"
| "apply_op s TogglePause = Some (Inr (s\<lparr>paused := \<not> paused s\<rparr>))"

fun run_ops :: "game \<Rightarrow> op list \<Rightarrow> (error + game) option" where
  "run_ops s [] = Some (Inr s)"
| "run_ops s (opn # ops) =
     (case apply_op s opn of
        None \<Rightarrow> None
      | Some (Inl e) \<Rightarrow> Some (Inl e)
      | Some (Inr s') \<Rightarrow> run_ops s' ops)"

section \<open>Example inputs\<close>

text \<open>A board whose rows 2 and 5 are full and whose other rows are not.\<close>

definition rows_2_5_full :: board where
  "rows_2_5_full = (replicate 24 [0,1,1,1,1,1,1,1,1,0])[2 := replicate 10 3, 5 := replicate 10 7, 6 := [0,0,0,0,2,2,0,0,0,0]]"


text \<open>
  A state at level 2 whose vertical I piece, in column 5 on rows 20 to 23, completes
  the three bottom rows.
\<close>

definition three_rows_state :: game where
  "three_rows_state =
     \<lparr>board = replicate 21 (replicate 10 0) @ replicate 3 [2,2,2,2,2,0,2,2,2,2],
      score = 1000, level = 2, lines = 10, high_level = 2, high_lines = 10,
      game_over = False, paused = False, next_type = PieceO, current_type = PieceI,
      current_shape = rotate (SHAPES PieceI), pos_x = 3, pos_y = 20, saved = []\<rparr>"

text \<open>A state whose next piece, the I piece, has no free column on its spawn row.\<close>

definition blocked_state :: game where
  "blocked_state =
     \<lparr>board = [replicate 10 0, [0,0,0,1,1,1,1,0,0,0]] @ replicate 22 (replicate 10 0),
      score = 0, level = 3, lines = 20, high_level = 1, high_lines = 25,
      game_over = False, paused = False, next_type = PieceI, current_type = PieceO,
      current_shape = SHAPES PieceO, pos_x = 4, pos_y = 2, saved = []\<rparr>"

text \<open>The same state on the empty board: every column is free.\<close>

definition free_state :: game where
  "free_state = blocked_state\<lparr>board := new_board\<rparr>"


text \<open>
  A board on which the I piece collides at its centred column 3 and at the columns
  2, 4, 1 and 5 probed next, and is free at column 0.
\<close>

definition fallback_board :: board where
  "fallback_board = [replicate 10 0, [0,0,0,0,1,1,0,0,0,0]] @ replicate 22 (replicate 10 0)"


text \<open>A state whose shape matrix holds zeros only.\<close>

definition zero_shape_state :: game where
  "zero_shape_state = free_state\<lparr>current_shape := [[0, 0], [0, 0]]\<rparr>"


text \<open>
  A run of the main loop: a fresh stats file, every random choice but one the I piece.
  The first I piece is turned upright and dropped, the second dropped flat on top of
  it, and the O piece that follows is moved one column to the left, above the gap
  that the two I pieces enclose.
\<close>

definition init_ms :: main_state where
  "init_ms =
     \<lparr>the_game =
        \<lparr>board = new_board, score = 0, level = 1, lines = 0, high_level = 0, high_lines = 0,
         game_over = False, paused = False, next_type = PieceI, current_type = PieceI,
         current_shape = SHAPES PieceI, pos_x = 3, pos_y = 0, saved = []\<rparr>,
      running = True, fall_speed = 1000\<rparr>"

definition cave_frames :: "(ptype \<times> event) list list" where
  "cave_frames =
     [[(PieceI, KEYDOWN K_UP)], [(PieceO, KEYDOWN K_SPACE)], [(PieceI, KEYDOWN K_SPACE)],
      [(PieceI, KEYDOWN K_LEFT)]]"

definition cave_ms :: main_state where
  "cave_ms =
     \<lparr>the_game =
        \<lparr>board = replicate 19 (replicate 10 0) @ [[0,0,0,1,1,1,1,0,0,0]]
                   @ replicate 4 [0,0,0,0,0,1,0,0,0,0],
         score = 0, level = 1, lines = 0, high_level = 0, high_lines = 0,
         game_over = False, paused = False, next_type = PieceI, current_type = PieceO,
         current_shape = SHAPES PieceO, pos_x = 3, pos_y = 2, saved = []\<rparr>,
      running = True, fall_speed = 1000\<rparr>"

text \<open>
  A run that ends the game: five upright I pieces stacked in column 5, an O piece and
  a flat I piece on top, and no free column for the I piece that comes next.
\<close>

definition game_over_frames :: "(ptype \<times> event) list list" where
  "game_over_frames =
     [[(PieceI, KEYDOWN K_UP)], [(PieceI, KEYDOWN K_SPACE)],
      [(PieceI, KEYDOWN K_UP)], [(PieceI, KEYDOWN K_SPACE)],
      [(PieceI, KEYDOWN K_UP)], [(PieceI, KEYDOWN K_SPACE)],
      [(PieceI, KEYDOWN K_UP)], [(PieceO, KEYDOWN K_SPACE)],
      [(PieceI, KEYDOWN K_UP)], [(PieceI, KEYDOWN K_SPACE)],
      [(PieceI, KEYDOWN K_SPACE)],
      [(PieceI, KEYDOWN K_DOWN)]]"

definition game_over_ms :: main_state where
  "game_over_ms =
     \<lparr>the_game =
        \<lparr>board = [replicate 10 0, [0,0,0,1,1,1,1,0,0,0], [0,0,0,0,4,4,0,0,0,0],
                   [0,0,0,0,4,4,0,0,0,0]] @ replicate 20 [0,0,0,0,0,1,0,0,0,0],
         score = 0, level = 1, lines = 0, high_level = 1, high_lines = 0,
         game_over = True, paused = False, next_type = PieceI, current_type = PieceI,
         current_shape = SHAPES PieceI, pos_x = 3, pos_y = 0, saved = [(1, 0)]\<rparr>,
      running = True, fall_speed = 1000\<rparr>"

text \<open>A short run that completes the bottom row: two flat I pieces and an O piece.\<close>

definition one_line_ops :: "op list" where
  "one_line_ops =
     [Move (- 1), Move (- 1), Move (- 1), HardDrop PieceO,
      Move 1, HardDrop PieceT,
      Move 1, Move 1, Move 1, Move 1, HardDrop PieceT]"

section \<open>The spawn rule as the specification words it\<close>

text \<open>
  The probing order of the specification: the centred column, then the columns at
  distance 1, 2, ... up to \<open>n\<close> on the left and on the right in turn, of which the
  columns \<open>x\<close> with \<open>0 \<le> x \<le> COLS - w\<close> are kept.
\<close>

definition spawn_order_spec :: "int \<Rightarrow> int \<Rightarrow> int list" where
  "spawn_order_spec n w =
     (let center = (COLS - w) div 2
      in filter (\<lambda>x. 0 \<le> x \<and> x \<le> COLS - w)
           (center # concat (map (\<lambda>i. [center - i, center + i]) [1..n])))"

text \<open>The spawn row of the specification: \<open>HIDDEN_ROWS - h\<close>, not below 0.\<close>

definition spawn_y_spec :: "shape \<Rightarrow> int" where
  "spawn_y_spec shape = max 0 (HIDDEN_ROWS - int (length shape))"

text \<open>A column at which the shape, on row \<open>sy\<close>, does not collide with the board.\<close>

definition free_column :: "board \<Rightarrow> shape \<Rightarrow> int \<Rightarrow> int \<Rightarrow> bool" where
  "free_column b shape sy x \<longleftrightarrow> collide b shape (x, sy) = Inr False"

section \<open>Repeated soft drops, and shapes with a cell\<close>

text \<open>
  Applying \<open>soft_drop\<close> again and again until it reports that the piece locked (it
  returns \<open>False\<close>), each call with the same random choice at hand; \<open>None\<close> when that
  never happens.
\<close>

partial_function (option) soft_drop_until_locked :: "game \<Rightarrow> ptype \<Rightarrow> (error + game) option"
  where
  "soft_drop_until_locked s draw =
     (case soft_drop s draw of
        Inl e \<Rightarrow> Some (Inl e)
      | Inr r \<Rightarrow> if snd r then soft_drop_until_locked (fst r) draw else Some (Inr (fst r)))"

declare soft_drop_until_locked.simps [code]

text \<open>A shape matrix with at least one nonzero cell.\<close>

definition has_cell :: "shape \<Rightarrow> bool" where
  "has_cell shape = list_ex (list_ex (\<lambda>cell. cell \<noteq> 0)) shape"

text \<open>The catalog shapes in their four orientations.\<close>

definition orientations :: "shape list" where
  "orientations =
     concat (map (\<lambda>t. [SHAPES t, rotate (SHAPES t), rotate (rotate (SHAPES t)),
                         rotate (rotate (rotate (SHAPES t)))])
               [PieceI, PieceJ, PieceL, PieceO, PieceS, PieceT, PieceZ])"

text \<open>
  What holds of the engine between operations: the board is well-formed, the level
  follows from the lines, and the active shape is a catalog shape in some orientation.
\<close>

definition engine_inv :: "game \<Rightarrow> bool" where
  "engine_inv s \<longleftrightarrow>
     wf_board (board s) \<and> level s = 1 + lines s div 10 \<and> current_shape s \<in> set orientations"

section \<open>Properties of collide\<close>

lemma cell_at_wf:
  assumes "wf_board b" "0 \<le> by" "by < TOTAL_ROWS" "0 \<le> bx" "bx < COLS"
  shows "cell_at b by bx = Inr (b ! nat by ! nat bx)"
proof -
  from assms have len: "int (length b) = TOTAL_ROWS"
    and rows: "\<forall>row \<in> set b. int (length row) = COLS"
    by (simp_all add: wf_board_def list_all_iff)
  from len assms have "nat by < length b" by linarith
  then have "b ! nat by \<in> set b" by simp
  with rows have "int (length (b ! nat by)) = COLS" by blast
  with assms len show ?thesis
    by (simp add: cell_at_def py_get_def py_index_def Let_def)
qed

lemma collide_row_wf:
  assumes "wf_board b" "0 \<le> x0"
  shows "collide_row b off_x by x0 row =
           Inr (\<exists>i < length row. row ! i \<noteq> 0 \<and>
                  (off_x + x0 + int i < 0 \<or> off_x + x0 + int i \<ge> COLS \<or> by \<ge> TOTAL_ROWS \<or>
                   (by \<ge> 0 \<and> b ! nat by ! nat (off_x + x0 + int i) \<noteq> 0)))"
  using assms(2)
proof (induction row arbitrary: x0)
  case Nil
  show ?case by simp
next
  case (Cons cell row)
  let ?Q = "\<lambda>x0 row i. row ! i \<noteq> 0 \<and>
                  (off_x + x0 + int i < 0 \<or> off_x + x0 + int i \<ge> COLS \<or> by \<ge> TOTAL_ROWS \<or>
                   (by \<ge> 0 \<and> b ! nat by ! nat (off_x + x0 + int i) \<noteq> 0))"
  have shift: "(\<exists>i < length (cell # row). ?Q x0 (cell # row) i) \<longleftrightarrow>
                 ?Q x0 (cell # row) 0 \<or> (\<exists>i < length row. ?Q (x0 + 1) row i)"
  proof -
    have "(\<exists>i < length (cell # row). ?Q x0 (cell # row) i) \<longleftrightarrow>
            ?Q x0 (cell # row) 0 \<or> (\<exists>i < length row. ?Q x0 (cell # row) (Suc i))"
      by (simp add: Ex_less_Suc2 del: nth_Cons_Suc nth_Cons_0)
    also have "(\<exists>i < length row. ?Q x0 (cell # row) (Suc i)) \<longleftrightarrow>
                 (\<exists>i < length row. ?Q (x0 + 1) row i)"
      by (simp add: add.assoc add.commute add.left_commute)
    finally show ?thesis .
  qed
  from Cons.prems have ih: "collide_row b off_x by (x0 + 1) row =
      Inr (\<exists>i < length row. ?Q (x0 + 1) row i)"
    using Cons.IH [of "x0 + 1"] by simp
  show ?case
  proof (cases "cell \<noteq> 0 \<and> 0 \<le> off_x + x0 \<and> off_x + x0 < COLS \<and> 0 \<le> by \<and> by < TOTAL_ROWS")
    case True
    then have "cell_at b by (off_x + x0) = Inr (b ! nat by ! nat (off_x + x0))"
      using cell_at_wf [OF assms(1)] by simp
    with True ih show ?thesis
      unfolding shift by (auto simp: Let_def)
  next
    case False
    with ih show ?thesis
      unfolding shift by (auto simp: Let_def)
  qed
qed

lemma collide_rows_wf:
  assumes "wf_board b" "0 \<le> y0"
  shows "collide_rows b off_x off_y y0 rows =
           Inr (\<exists>j < length rows. \<exists>i < length (rows ! j). rows ! j ! i \<noteq> 0 \<and>
                  (off_x + int i < 0 \<or> off_x + int i \<ge> COLS \<or> off_y + y0 + int j \<ge> TOTAL_ROWS \<or>
                   (off_y + y0 + int j \<ge> 0 \<and>
                    b ! nat (off_y + y0 + int j) ! nat (off_x + int i) \<noteq> 0)))"
  using assms(2)
proof (induction rows arbitrary: y0)
  case Nil
  show ?case by simp
next
  case (Cons row rows)
  let ?R = "\<lambda>y0 rows j. \<exists>i < length (rows ! j). rows ! j ! i \<noteq> 0 \<and>
                  (off_x + int i < 0 \<or> off_x + int i \<ge> COLS \<or> off_y + y0 + int j \<ge> TOTAL_ROWS \<or>
                   (off_y + y0 + int j \<ge> 0 \<and>
                    b ! nat (off_y + y0 + int j) ! nat (off_x + int i) \<noteq> 0))"
  have shift: "(\<exists>j < length (row # rows). ?R y0 (row # rows) j) \<longleftrightarrow>
                 ?R y0 (row # rows) 0 \<or> (\<exists>j < length rows. ?R (y0 + 1) rows j)"
  proof -
    have "(\<exists>j < length (row # rows). ?R y0 (row # rows) j) \<longleftrightarrow>
            ?R y0 (row # rows) 0 \<or> (\<exists>j < length rows. ?R y0 (row # rows) (Suc j))"
      by (simp add: Ex_less_Suc2 del: nth_Cons_Suc nth_Cons_0)
    also have "(\<exists>j < length rows. ?R y0 (row # rows) (Suc j)) \<longleftrightarrow>
                 (\<exists>j < length rows. ?R (y0 + 1) rows j)"
      by (simp add: add.assoc add.commute add.left_commute)
    finally show ?thesis .
  qed
  define A where "A = ?R y0 (row # rows) 0"
  define B where "B = (\<exists>j < length rows. ?R (y0 + 1) rows j)"
  from Cons.prems have ih: "collide_rows b off_x off_y (y0 + 1) rows = Inr B"
    unfolding B_def using Cons.IH [of "y0 + 1"] by simp
  have row: "collide_row b off_x (off_y + y0) 0 row = Inr A"
    unfolding A_def using collide_row_wf [OF assms(1), of 0 off_x "off_y + y0" row] by simp
  have "collide_rows b off_x off_y y0 (row # rows) = Inr (A \<or> B)"
    by (cases A) (simp_all add: row ih)
  then show ?case
    unfolding shift A_def B_def .
qed

lemma collide_wf:
  assumes "wf_board b"
  shows "collide b shape (off_x, off_y) =
           Inr (\<exists>y < length shape. \<exists>x < length (shape ! y).
                  cell_blocked b shape off_x off_y x y)"
  using collide_rows_wf [OF assms, of 0 off_x off_y shape]
  by (simp add: collide_def cell_blocked_def)

lemma wf_new_board: "wf_board new_board"
  by (simp add: wf_board_def new_board_def TOTAL_ROWS_def VISIBLE_ROWS_def HIDDEN_ROWS_def
      COLS_def list_all_iff)

text \<open>
  Claim C1. On a board of \<open>TOTAL_ROWS\<close> rows of \<open>COLS\<close> cells, \<open>collide\<close> returns
  true exactly when some nonzero cell of the shape lands on a column below 0 or at least
  \<open>COLS\<close>, or on a row at least \<open>TOTAL_ROWS\<close>, or on an occupied cell of a row at
  least 0. Cells above the board do not count: when every nonzero cell lands inside the
  horizontal range and on a negative row, \<open>collide\<close> returns false on every such board.
\<close>

theorem collide_iff_blocked_cell:
  assumes "wf_board b"
  shows "collide b shape (off_x, off_y) =
           Inr (\<exists>y < length shape. \<exists>x < length (shape ! y).
                  shape ! y ! x \<noteq> 0 \<and>
                  (off_x + int x < 0 \<or> off_x + int x \<ge> COLS \<or> off_y + int y \<ge> TOTAL_ROWS \<or>
                   (off_y + int y \<ge> 0 \<and> b ! nat (off_y + int y) ! nat (off_x + int x) \<noteq> 0))) \<and>
         ((\<forall>y < length shape. \<forall>x < length (shape ! y).
             shape ! y ! x \<noteq> 0 \<longrightarrow>
               off_y + int y < 0 \<and> 0 \<le> off_x + int x \<and> off_x + int x < COLS)
          \<longrightarrow> collide b shape (off_x, off_y) = Inr False)"
proof -
  have eq: "collide b shape (off_x, off_y) =
           Inr (\<exists>y < length shape. \<exists>x < length (shape ! y).
                  cell_blocked b shape off_x off_y x y)"
    by (rule collide_wf [OF assms])
  have above: "collide b shape (off_x, off_y) = Inr False"
    if "\<forall>y < length shape. \<forall>x < length (shape ! y).
             shape ! y ! x \<noteq> 0 \<longrightarrow>
               off_y + int y < 0 \<and> 0 \<le> off_x + int x \<and> off_x + int x < COLS"
  proof -
    have "TOTAL_ROWS \<ge> 0"
      by (simp add: TOTAL_ROWS_def VISIBLE_ROWS_def HIDDEN_ROWS_def)
    with that have "\<not> (\<exists>y < length shape. \<exists>x < length (shape ! y).
                  cell_blocked b shape off_x off_y x y)"
      unfolding cell_blocked_def by force
    with eq show ?thesis by simp
  qed
  from eq above show ?thesis
    unfolding cell_blocked_def by blast
qed

theorem collide_iff_blocked_cell_witness:
  "wf_board new_board \<and> collide new_board (SHAPES PieceO) (4, - 5) = Inr False"
proof -
  have above: "\<forall>y < length (SHAPES PieceO). \<forall>x < length (SHAPES PieceO ! y).
       SHAPES PieceO ! y ! x \<noteq> 0 \<longrightarrow> - 5 + int y < 0 \<and> 0 \<le> 4 + int x \<and> 4 + int x < COLS"
    by (simp add: COLS_def All_less_Suc)
  from collide_iff_blocked_cell [OF wf_new_board, of "SHAPES PieceO" 4 "- 5"] above
  have "collide new_board (SHAPES PieceO) (4, - 5) = Inr False"
    by blast
  with wf_new_board show ?thesis by blast
qed

section \<open>Properties of clear_lines\<close>

lemma funpow_Cons_replicate: "((\<lambda>rows. r # rows) ^^ n) xs = replicate n r @ xs"
  by (induction n) (simp_all add: replicate_app_Cons_same)

lemma list_ex_zero: "list_ex (\<lambda>cell. cell = 0) row \<longleftrightarrow> (0::int) \<in> set row"
  by (auto simp: list_ex_iff)

lemma clear_lines_eq:
  "clear_lines b =
     (replicate (nat (TOTAL_ROWS - int (length (filter (\<lambda>row. 0 \<in> set row) b))))
        (replicate (nat COLS) 0) @ filter (\<lambda>row. 0 \<in> set row) b,
      TOTAL_ROWS - int (length (filter (\<lambda>row. 0 \<in> set row) b)))"
  by (simp add: clear_lines_def Let_def funpow_Cons_replicate list_ex_zero)

lemma count_full_rows:
  "length (filter (\<lambda>row. (0::int) \<notin> set row) b) + length (filter (\<lambda>row. 0 \<in> set row) b) = length b"
  using sum_length_filter_compl [of "\<lambda>row. (0::int) \<notin> set row" b] by simp

text \<open>
  Claim C2. On a board of \<open>TOTAL_ROWS\<close> rows, \<open>clear_lines\<close> returns as count the number
  of rows without a zero cell, and as board that many rows of zeros followed by the rows
  that have a zero cell, unchanged and in their order; the new board has \<open>TOTAL_ROWS\<close>
  rows again. The count of full rows is arbitrary: one, four or more.
\<close>

theorem clear_lines_removes_full_rows:
  assumes "int (length b) = TOTAL_ROWS"
  shows "clear_lines b =
           (replicate (length (filter (\<lambda>row. 0 \<notin> set row) b)) (replicate (nat COLS) 0)
              @ filter (\<lambda>row. 0 \<in> set row) b,
            int (length (filter (\<lambda>row. 0 \<notin> set row) b))) \<and>
         int (length (fst (clear_lines b))) = TOTAL_ROWS"
proof -
  have "TOTAL_ROWS - int (length (filter (\<lambda>row. 0 \<in> set row) b))
          = int (length (filter (\<lambda>row. 0 \<notin> set row) b))"
    using assms count_full_rows [of b] by linarith
  then have eq: "clear_lines b =
           (replicate (length (filter (\<lambda>row. 0 \<notin> set row) b)) (replicate (nat COLS) 0)
              @ filter (\<lambda>row. 0 \<in> set row) b,
            int (length (filter (\<lambda>row. 0 \<notin> set row) b)))"
    by (simp add: clear_lines_eq)
  have "int (length (fst (clear_lines b))) = TOTAL_ROWS"
    unfolding eq using assms count_full_rows [of b] by simp
  with eq show ?thesis by simp
qed

theorem clear_lines_removes_full_rows_witness:
  "int (length rows_2_5_full) = TOTAL_ROWS \<and>
   clear_lines rows_2_5_full =
     ([[0,0,0,0,0,0,0,0,0,0], [0,0,0,0,0,0,0,0,0,0],
       [0,1,1,1,1,1,1,1,1,0], [0,1,1,1,1,1,1,1,1,0],
       [0,1,1,1,1,1,1,1,1,0], [0,1,1,1,1,1,1,1,1,0], [0,0,0,0,2,2,0,0,0,0]]
      @ replicate 17 [0,1,1,1,1,1,1,1,1,0], 2)"
proof -
  have len: "int (length rows_2_5_full) = TOTAL_ROWS"
    by (simp add: rows_2_5_full_def TOTAL_ROWS_def VISIBLE_ROWS_def HIDDEN_ROWS_def)
  have full: "filter (\<lambda>row. 0 \<notin> set row) rows_2_5_full = [replicate 10 3, replicate 10 7]"
    by code_simp
  have rest: "filter (\<lambda>row. 0 \<in> set row) rows_2_5_full =
      [[0,1,1,1,1,1,1,1,1,0], [0,1,1,1,1,1,1,1,1,0],
       [0,1,1,1,1,1,1,1,1,0], [0,1,1,1,1,1,1,1,1,0], [0,0,0,0,2,2,0,0,0,0]]
      @ replicate 17 [0,1,1,1,1,1,1,1,1,0]"
    by code_simp
  have zeros: "replicate (nat COLS) (0::int) = [0,0,0,0,0,0,0,0,0,0]"
    by code_simp
  from clear_lines_removes_full_rows [OF len] have "clear_lines rows_2_5_full =
     (replicate (nat COLS) 0 # replicate (nat COLS) 0 #
        filter (\<lambda>row. 0 \<in> set row) rows_2_5_full, 2)"
    unfolding full by simp
  then show ?thesis
    unfolding rest zeros using len by simp
qed

section \<open>Rotation of the catalog shapes\<close>

text \<open>
  Claim C9. Rotating any of the seven catalog shapes four times gives the shape back,
  cell for cell.
\<close>

theorem rotate_four_times_identity:
  "rotate (rotate (rotate (rotate (SHAPES t)))) = SHAPES t"
  by (cases t; simp only: ; code_simp)

section \<open>Boards stay well-formed\<close>

lemma TOTAL_ROWS_val: "TOTAL_ROWS = 24"
  by (simp add: TOTAL_ROWS_def VISIBLE_ROWS_def HIDDEN_ROWS_def)

lemma wf_board_update:
  assumes "wf_board b" "int (length r) = COLS"
  shows "wf_board (b[i := r])"
proof -
  have "set (b[i := r]) \<subseteq> insert r (set b)"
    by (rule set_update_subset_insert)
  with assms show ?thesis
    by (auto simp: wf_board_def list_all_iff)
qed

lemma wf_board_row:
  assumes "wf_board b" "0 \<le> by" "by < TOTAL_ROWS"
  shows "nat by < length b" and "int (length (b ! nat by)) = COLS"
proof -
  from assms show lt: "nat by < length b"
    by (simp add: wf_board_def) linarith
  then have "b ! nat by \<in> set b" by simp
  with assms(1) show "int (length (b ! nat by)) = COLS"
    by (simp add: wf_board_def list_all_iff)
qed

lemma set_cell_wf:
  assumes "wf_board b" "0 \<le> by" "by < TOTAL_ROWS" "0 \<le> bx" "bx < COLS"
  shows "\<exists>b'. set_cell b by bx v = Inr b' \<and> wf_board b'"
proof -
  note row = wf_board_row [OF assms(1-3)]
  from row assms have get: "py_get b by = Inr (b ! nat by)"
    by (simp add: py_get_def py_index_def Let_def)
  from row assms have set_row: "py_set (b ! nat by) bx v = Inr ((b ! nat by)[nat bx := v])"
    by (simp add: py_set_def py_index_def Let_def)
  from row assms have set_board:
    "py_set b by ((b ! nat by)[nat bx := v]) = Inr (b[nat by := (b ! nat by)[nat bx := v]])"
    by (simp add: py_set_def py_index_def Let_def)
  have "wf_board (b[nat by := (b ! nat by)[nat bx := v]])"
    using assms(1) row(2) by (intro wf_board_update) simp_all
  then show ?thesis
    by (simp add: set_cell_def get set_row set_board)
qed

lemma merge_row_wf:
  "wf_board b \<Longrightarrow> \<exists>b'. merge_row b off_x by x row = Inr b' \<and> wf_board b'"
proof (induction row arbitrary: b x)
  case Nil
  then show ?case by simp
next
  case (Cons cell row)
  show ?case
  proof (cases "cell \<noteq> 0 \<and> 0 \<le> by \<and> by < TOTAL_ROWS \<and> 0 \<le> off_x + x \<and> off_x + x < COLS")
    case True
    then obtain b1 where b1: "set_cell b by (off_x + x) cell = Inr b1" "wf_board b1"
      using set_cell_wf [OF Cons.prems, of "by" "off_x + x" cell] by blast
    from Cons.IH [OF b1(2), of "x + 1"] True b1(1) show ?thesis
      by (simp add: Let_def)
  next
    case False
    with Cons.IH [OF Cons.prems, of "x + 1"] show ?thesis
      by (auto simp: Let_def)
  qed
qed

lemma merge_rows_wf:
  "wf_board b \<Longrightarrow> \<exists>b'. merge_rows b off_x off_y y rows = Inr b' \<and> wf_board b'"
proof (induction rows arbitrary: b y)
  case Nil
  then show ?case by simp
next
  case (Cons row rows)
  from merge_row_wf [OF Cons.prems, of off_x "off_y + y" 0 row]
  obtain b1 where b1: "merge_row b off_x (off_y + y) 0 row = Inr b1" "wf_board b1"
    by blast
  from Cons.IH [OF b1(2), of "y + 1"] b1(1) show ?case
    by simp
qed

lemma merge_wf:
  "wf_board b \<Longrightarrow> \<exists>b'. merge shape b offset = Inr b' \<and> wf_board b'"
  by (cases offset) (simp add: merge_def merge_rows_wf)

lemma clear_lines_wf:
  assumes "wf_board b"
  shows "wf_board (fst (clear_lines b))"
proof -
  from assms have len: "int (length b) = TOTAL_ROWS"
    and rows: "\<forall>row \<in> set b. int (length row) = COLS"
    by (simp_all add: wf_board_def list_all_iff)
  have "TOTAL_ROWS - int (length (filter (\<lambda>row. 0 \<in> set row) b)) \<ge> 0"
    using len count_full_rows [of b] by linarith
  then have "int (length (fst (clear_lines b))) = TOTAL_ROWS"
    by (simp add: clear_lines_eq)
  moreover have "\<forall>row \<in> set (fst (clear_lines b)). int (length row) = COLS"
    using rows by (auto simp: clear_lines_eq COLS_def)
  ultimately show ?thesis
    by (simp add: wf_board_def list_all_iff)
qed

section \<open>The spawn search\<close>

lemma collide_total: "wf_board b \<Longrightarrow> \<exists>hit. collide b shape offset = Inr hit"
  by (cases offset) (simp add: collide_wf)

lemma spawn_search_wf:
  assumes "wf_board b"
  shows "spawn_search b shape sy xs = Inr (find (free_column b shape sy) xs)"
proof (induction xs)
  case Nil
  show ?case by simp
next
  case (Cons x xs)
  from collide_total [OF assms] obtain hit where "collide b shape (x, sy) = Inr hit"
    by blast
  with Cons show ?case
    by (cases hit) (simp_all add: free_column_def)
qed

lemma fold_spawn_order:
  "fold (\<lambda>i order.
          let left = c - i;
              right = c + i;
              order = (if left \<ge> 0 then order @ [left] else order)
          in if right \<le> m \<and> right \<noteq> left then order @ [right] else order) is acc
   = acc @ concat (map (\<lambda>i. (if c - i \<ge> 0 then [c - i] else []) @
                              (if c + i \<le> m \<and> c + i \<noteq> c - i then [c + i] else [])) is)"
  by (induction "is" arbitrary: acc) (simp_all add: Let_def)

lemma filter_spawn_order:
  assumes "\<forall>i \<in> set is. (1::int) \<le> i"
  shows "filter (\<lambda>x. 0 \<le> x \<and> x \<le> m)
           (concat (map (\<lambda>i. (if c - i \<ge> 0 then [c - i] else []) @
                              (if c + i \<le> m \<and> c + i \<noteq> c - i then [c + i] else [])) is))
         = filter (\<lambda>x. 0 \<le> x \<and> x \<le> m) (concat (map (\<lambda>i. [c - i, c + i]) is))"
  using assms by (induction "is") auto

lemma find_spawn_x_order_spec: "find_spawn_x_order w = spawn_order_spec (COLS - 1) w"
proof -
  have "find_spawn_x_order w =
          filter (\<lambda>x. 0 \<le> x \<and> x \<le> COLS - w)
            ([(COLS - w) div 2] @
             concat (map (\<lambda>i. (if (COLS - w) div 2 - i \<ge> 0 then [(COLS - w) div 2 - i] else []) @
                              (if (COLS - w) div 2 + i \<le> COLS - w \<and>
                                  (COLS - w) div 2 + i \<noteq> (COLS - w) div 2 - i
                               then [(COLS - w) div 2 + i] else [])) [1..COLS - 1]))"
    unfolding find_spawn_x_order_def
    by (simp only: fold_spawn_order) (simp only: Let_def)
  also have "\<dots> = spawn_order_spec (COLS - 1) w"
    unfolding spawn_order_spec_def Let_def filter_append
    using filter_spawn_order [of "[1..COLS - 1]" "COLS - w" "(COLS - w) div 2"]
    by simp
  finally show ?thesis .
qed

lemma spawn_order_far:
  assumes "0 \<le> w" "\<forall>i \<in> set is. COLS \<le> i"
  shows "filter (\<lambda>x. 0 \<le> x \<and> x \<le> COLS - w)
           (concat (map (\<lambda>i. [(COLS - w) div 2 - i, (COLS - w) div 2 + i]) is)) = []"
proof -
  define c where "c = (COLS - w) div 2"
  have c: "2 * c \<le> 10 - w" "10 - w < 2 * c + 2"
    unfolding c_def COLS_def by linarith+
  have "\<not> (0 \<le> c - i \<and> c - i \<le> COLS - w)" "\<not> (0 \<le> c + i \<and> c + i \<le> COLS - w)"
    if "COLS \<le> i" for i
    using that c assms(1) unfolding COLS_def by linarith+
  with assms(2) show ?thesis
    unfolding c_def [symmetric] by (induction "is") auto
qed

lemma spawn_order_spec_extend:
  assumes "0 \<le> w" "COLS - 1 \<le> n"
  shows "spawn_order_spec n w = spawn_order_spec (COLS - 1) w"
proof -
  have "[1..n] = [1..COLS - 1] @ [COLS..n]"
    using upto_split2 [of 1 "COLS - 1" n] assms(2) by (simp add: COLS_def)
  moreover have "filter (\<lambda>x. 0 \<le> x \<and> x \<le> COLS - w)
           (concat (map (\<lambda>i. [(COLS - w) div 2 - i, (COLS - w) div 2 + i]) [COLS..n])) = []"
    by (rule spawn_order_far [OF assms(1)]) simp
  ultimately show ?thesis
    by (simp add: spawn_order_spec_def Let_def)
qed

lemma set_spawn_order_spec:
  assumes "0 \<le> w" "COLS - 1 \<le> n"
  shows "set (spawn_order_spec n w) = {0..COLS - w}"
proof -
  define c where "c = (COLS - w) div 2"
  have c: "2 * c \<le> 10 - w" "10 - w < 2 * c + 2"
    unfolding c_def COLS_def by linarith+
  have set_eq: "set (spawn_order_spec n w) =
      {x. 0 \<le> x \<and> x \<le> COLS - w \<and> (x = c \<or> (\<exists>i \<in> {1..n}. x = c - i \<or> x = c + i))}"
    unfolding spawn_order_spec_def Let_def c_def [symmetric] by auto
  have cover: "x = c \<or> (\<exists>i \<in> {1..n}. x = c - i \<or> x = c + i)"
    if "0 \<le> x" "x \<le> COLS - w" for x
  proof -
    consider "x = c" | "x < c" | "c < x" by linarith
    then show ?thesis
    proof cases
      case 1
      then show ?thesis by simp
    next
      case 2
      with that c assms have "c - x \<in> {1..n}" "x = c - (c - x)"
        unfolding COLS_def by auto
      then show ?thesis by blast
    next
      case 3
      with that c assms have "x - c \<in> {1..n}" "x = c + (x - c)"
        unfolding COLS_def by auto
      then show ?thesis by blast
    qed
  qed
  have "{x. 0 \<le> x \<and> x \<le> COLS - w \<and> (x = c \<or> (\<exists>i \<in> {1..n}. x = c - i \<or> x = c + i))}
          = {x. 0 \<le> x \<and> x \<le> COLS - w}"
    using cover by blast
  also have "\<dots> = {0..COLS - w}"
    by auto
  finally show ?thesis
    unfolding set_eq .
qed

lemma SHAPES_Cons: "\<exists>row0 rest. SHAPES t = row0 # rest"
  by (cases t) simp_all

lemma spawn_place_wf:
  assumes "wf_board b"
  shows "spawn_place b (row0 # rest) =
           Inr (map_option (\<lambda>x. (x, spawn_y_spec (row0 # rest)))
                  (find (free_column b (row0 # rest) (spawn_y_spec (row0 # rest)))
                     (find_spawn_x_order (int (length row0)))))"
proof -
  have sy: "(if HIDDEN_ROWS - int (length (row0 # rest)) < 0 then 0
             else HIDDEN_ROWS - int (length (row0 # rest))) = spawn_y_spec (row0 # rest)"
    by (simp add: spawn_y_spec_def max_def)
  show ?thesis
    unfolding spawn_place_def list.case Let_def sy spawn_search_wf [OF assms]
    by (cases "find (free_column b (row0 # rest) (spawn_y_spec (row0 # rest)))
                     (find_spawn_x_order (int (length row0)))") simp_all
qed

section \<open>spawn_new\<close>

lemma spawn_failed_fields:
  "game_over (spawn_failed s)"
  "high_level (spawn_failed s) = (if level s > high_level s then level s else high_level s)"
  "high_lines (spawn_failed s) = (if lines s > high_lines s then lines s else high_lines s)"
  "saved (spawn_failed s) =
     (if level s > high_level s \<or> lines s > high_lines s
      then saved s @ [(high_level (spawn_failed s), high_lines (spawn_failed s))]
      else saved s)"
  "score (spawn_failed s) = score s" "lines (spawn_failed s) = lines s"
  "level (spawn_failed s) = level s" "board (spawn_failed s) = board s"
  "paused (spawn_failed s) = paused s" "current_shape (spawn_failed s) = current_shape s"
  "pos_x (spawn_failed s) = pos_x s" "pos_y (spawn_failed s) = pos_y s"
  by (simp_all add: spawn_failed_def save_stats_def Let_def)

lemma spawn_new_wf:
  assumes "wf_board (board s)"
  shows "spawn_new s draw =
     Inr (case find (free_column (board s) (SHAPES (next_type s))
                       (spawn_y_spec (SHAPES (next_type s))))
                 (find_spawn_x_order (int (length (hd (SHAPES (next_type s)))))) of
            Some x \<Rightarrow> s\<lparr>current_type := next_type s, current_shape := SHAPES (next_type s),
                         next_type := draw, pos_x := x,
                         pos_y := spawn_y_spec (SHAPES (next_type s))\<rparr>
          | None \<Rightarrow> spawn_failed (s\<lparr>current_type := next_type s,
                         current_shape := SHAPES (next_type s), next_type := draw\<rparr>))"
proof -
  obtain row0 rest where sh: "SHAPES (next_type s) = row0 # rest"
    using SHAPES_Cons by blast
  show ?thesis
    unfolding spawn_new_def Let_def
    using assms by (simp add: sh spawn_place_wf split: option.split)
qed

lemma spawn_new_cases:
  assumes "spawn_new s draw = Inr s'"
  obtains (placed) x y where
      "s' = s\<lparr>current_type := next_type s, current_shape := SHAPES (next_type s),
                next_type := draw, pos_x := x, pos_y := y\<rparr>"
  | (failed)
      "s' = spawn_failed (s\<lparr>current_type := next_type s,
                current_shape := SHAPES (next_type s), next_type := draw\<rparr>)"
proof (cases "spawn_place (board s) (SHAPES (next_type s))")
  case (Inl e)
  with assms show ?thesis
    by (simp add: spawn_new_def Let_def)
next
  case (Inr r)
  show ?thesis
  proof (cases r)
    case None
    with Inr assms failed show ?thesis
      by (simp add: spawn_new_def Let_def)
  next
    case (Some xy)
    with Inr assms show ?thesis
      by (cases xy) (auto simp: spawn_new_def Let_def intro: placed)
  qed
qed

lemma spawn_new_counters:
  assumes "spawn_new s draw = Inr s'"
  shows "score s' = score s" "lines s' = lines s" "level s' = level s"
    "board s' = board s" "paused s' = paused s"
  using assms by (cases rule: spawn_new_cases; simp add: spawn_failed_fields)+

lemma find_None_free:
  assumes "0 \<le> w"
  shows "find (free_column b sh sy) (find_spawn_x_order w) = None \<longleftrightarrow>
           \<not> (\<exists>x \<in> {0..COLS - w}. free_column b sh sy x)"
proof -
  have "find (free_column b sh sy) (find_spawn_x_order w) = None \<longleftrightarrow>
          \<not> (\<exists>x \<in> set (find_spawn_x_order w). free_column b sh sy x)"
    by (auto simp: find_None_iff)
  also have "set (find_spawn_x_order w) = {0..COLS - w}"
    unfolding find_spawn_x_order_spec by (rule set_spawn_order_spec [OF assms]) simp
  finally show ?thesis .
qed

lemma find_Some_free:
  assumes "0 \<le> w" "find (free_column b sh sy) (find_spawn_x_order w) = Some x"
  shows "x \<in> {0..COLS - w}" "free_column b sh sy x"
proof -
  from assms(2) have "x \<in> set (find_spawn_x_order w)" "free_column b sh sy x"
    by (auto simp: find_Some_iff)
  then show "x \<in> {0..COLS - w}" "free_column b sh sy x"
    using set_spawn_order_spec [OF assms(1), of "COLS - 1"]
    by (simp_all add: find_spawn_x_order_spec)
qed

text \<open>
  Claim C5. On a well-formed board \<open>spawn_new\<close> returns, and it sets \<open>game_over\<close>
  exactly when no column \<open>x\<close> with \<open>0 \<le> x \<le> COLS - w\<close> is free for the new shape on its
  spawn row. When it does, \<open>high_level\<close> and \<open>high_lines\<close> take the current level and
  lines where these are strictly greater, and \<open>save_stats\<close> is called, once, exactly
  when one of the two changed. When a column is free, \<open>game_over\<close>, the two records
  and the saved file stay as they were.
\<close>

theorem spawn_game_over_iff:
  assumes "wf_board (board s)"
  shows "\<exists>s'. spawn_new s draw = Inr s' \<and>
     (if \<exists>x \<in> {0..COLS - int (length (hd (SHAPES (next_type s))))}.
           free_column (board s) (SHAPES (next_type s)) (spawn_y_spec (SHAPES (next_type s))) x
      then game_over s' = game_over s \<and> high_level s' = high_level s \<and>
           high_lines s' = high_lines s \<and> saved s' = saved s
      else game_over s' \<and>
           high_level s' = (if level s > high_level s then level s else high_level s) \<and>
           high_lines s' = (if lines s > high_lines s then lines s else high_lines s) \<and>
           saved s' = (if level s > high_level s \<or> lines s > high_lines s
                       then saved s @ [(high_level s', high_lines s')] else saved s))"
proof (cases "find (free_column (board s) (SHAPES (next_type s))
                       (spawn_y_spec (SHAPES (next_type s))))
                 (find_spawn_x_order (int (length (hd (SHAPES (next_type s))))))")
  case None
  then have "\<not> (\<exists>x \<in> {0..COLS - int (length (hd (SHAPES (next_type s))))}.
           free_column (board s) (SHAPES (next_type s)) (spawn_y_spec (SHAPES (next_type s))) x)"
    by (simp add: find_None_free)
  then show ?thesis
    by (simp add: spawn_new_wf [OF assms] None spawn_failed_fields)
next
  case (Some x)
  then have "\<exists>x \<in> {0..COLS - int (length (hd (SHAPES (next_type s))))}.
           free_column (board s) (SHAPES (next_type s)) (spawn_y_spec (SHAPES (next_type s))) x"
    using find_Some_free [OF of_nat_0_le_iff Some] by blast
  then show ?thesis
    by (simp add: spawn_new_wf [OF assms] Some)
qed

lemma blocked_state_wf: "wf_board (board blocked_state)"
  by code_simp

lemma free_state_wf: "wf_board (board free_state)"
  by code_simp

lemma blocked_state_find:
  "find (free_column (board blocked_state) (SHAPES (next_type blocked_state))
             (spawn_y_spec (SHAPES (next_type blocked_state))))
     (find_spawn_x_order (int (length (hd (SHAPES (next_type blocked_state)))))) = None"
  by code_simp

lemma free_state_find:
  "find (free_column (board free_state) (SHAPES (next_type free_state))
             (spawn_y_spec (SHAPES (next_type free_state))))
     (find_spawn_x_order (int (length (hd (SHAPES (next_type free_state)))))) = Some 3"
  by code_simp

theorem spawn_game_over_iff_witness:
  "wf_board (board blocked_state) \<and> wf_board (board free_state) \<and>
   (\<exists>s'. spawn_new blocked_state PieceT = Inr s' \<and> game_over s' \<and>
         high_level s' = 3 \<and> high_lines s' = 25 \<and> saved s' = [(3, 25)]) \<and>
   (\<exists>s'. spawn_new free_state PieceT = Inr s' \<and> \<not> game_over s' \<and>
         high_level s' = 1 \<and> high_lines s' = 25 \<and> saved s' = [])"
proof -
  have no_col: "\<not> (\<exists>x \<in> {0..COLS - int (length (hd (SHAPES (next_type blocked_state))))}.
           free_column (board blocked_state) (SHAPES (next_type blocked_state))
             (spawn_y_spec (SHAPES (next_type blocked_state))) x)"
    using find_None_free [OF of_nat_0_le_iff] blocked_state_find by blast
  have col: "\<exists>x \<in> {0..COLS - int (length (hd (SHAPES (next_type free_state))))}.
           free_column (board free_state) (SHAPES (next_type free_state))
             (spawn_y_spec (SHAPES (next_type free_state))) x"
    using find_Some_free [OF of_nat_0_le_iff free_state_find] by blast
  have fields: "level blocked_state = 3" "high_level blocked_state = 1"
    "lines blocked_state = 20" "high_lines blocked_state = 25" "saved blocked_state = []"
    "game_over free_state = False" "high_level free_state = 1"
    "high_lines free_state = 25" "saved free_state = []"
    by (simp_all add: blocked_state_def free_state_def)
  from spawn_game_over_iff [OF blocked_state_wf, of PieceT] no_col
  have blocked: "\<exists>s'. spawn_new blocked_state PieceT = Inr s' \<and> game_over s' \<and>
         high_level s' = 3 \<and> high_lines s' = 25 \<and> saved s' = [(3, 25)]"
    by (auto simp: fields)
  from spawn_game_over_iff [OF free_state_wf, of PieceT] col
  have free: "\<exists>s'. spawn_new free_state PieceT = Inr s' \<and> \<not> game_over s' \<and>
         high_level s' = 1 \<and> high_lines s' = 25 \<and> saved s' = []"
    by (simp add: fields)
  from blocked free blocked_state_wf free_state_wf show ?thesis
    by blast
qed

text \<open>
  Claim C4. On a well-formed board the placement of a shape with first row \<open>row0\<close> is
  a function of board and shape: the row is \<open>HIDDEN_ROWS - h\<close>, not below 0, and the
  column is the first free one in the order centre, centre - 1, centre + 1, centre - 2,
  centre + 2, ... restricted to \<open>0 \<le> x \<le> COLS - w\<close>, however far (\<open>n \<ge> COLS - 1\<close>)
  the order is continued. \<open>spawn_new\<close> places the next catalog piece there.
\<close>

theorem spawn_placement_order:
  assumes "wf_board b" and "wf_board (board s)" and "COLS - 1 \<le> n"
  shows "spawn_place b (row0 # rest) =
           Inr (map_option (\<lambda>x. (x, spawn_y_spec (row0 # rest)))
                  (find (free_column b (row0 # rest) (spawn_y_spec (row0 # rest)))
                     (spawn_order_spec n (int (length row0))))) \<and>
         (\<exists>s'. spawn_new s draw = Inr s' \<and>
            (\<forall>x y. spawn_place (board s) (SHAPES (next_type s)) = Inr (Some (x, y)) \<longrightarrow>
               current_shape s' = SHAPES (next_type s) \<and> pos_x s' = x \<and> pos_y s' = y))"
proof -
  have order: "find_spawn_x_order (int (length row0)) = spawn_order_spec n (int (length row0))"
    using spawn_order_spec_extend [OF _ assms(3), of "int (length row0)"]
    by (simp add: find_spawn_x_order_spec)
  have place: "spawn_place b (row0 # rest) =
           Inr (map_option (\<lambda>x. (x, spawn_y_spec (row0 # rest)))
                  (find (free_column b (row0 # rest) (spawn_y_spec (row0 # rest)))
                     (spawn_order_spec n (int (length row0)))))"
    using spawn_place_wf [OF assms(1), of row0 rest] by (simp add: order)
  obtain r0 rs where sh: "SHAPES (next_type s) = r0 # rs"
    using SHAPES_Cons by blast
  have "\<exists>s'. spawn_new s draw = Inr s' \<and>
            (\<forall>x y. spawn_place (board s) (SHAPES (next_type s)) = Inr (Some (x, y)) \<longrightarrow>
               current_shape s' = SHAPES (next_type s) \<and> pos_x s' = x \<and> pos_y s' = y)"
    unfolding spawn_new_wf [OF assms(2)] sh spawn_place_wf [OF assms(2)]
    by (auto split: option.split)
  with place show ?thesis by blast
qed

lemma fallback_board_wf: "wf_board fallback_board"
  by code_simp

lemma fallback_find:
  "map_option (\<lambda>x. (x, spawn_y_spec (SHAPES PieceI)))
     (find (free_column fallback_board (SHAPES PieceI) (spawn_y_spec (SHAPES PieceI)))
        (spawn_order_spec 9 (int (length [0, 0, 0, 0 :: int])))) = Some (0, 0)"
  by code_simp

lemma spawn_order_spec_I: "spawn_order_spec 9 4 = [3, 2, 4, 1, 5, 0, 6]"
  by code_simp

theorem spawn_placement_order_witness:
  "wf_board fallback_board \<and> wf_board (board free_state) \<and> COLS - 1 \<le> 9 \<and>
   spawn_order_spec 9 4 = [3, 2, 4, 1, 5, 0, 6] \<and>
   spawn_place fallback_board (SHAPES PieceI) = Inr (Some (0, 0))"
proof -
  have n: "COLS - 1 \<le> 9"
    by (simp add: COLS_def)
  have sh: "SHAPES PieceI = [0, 0, 0, 0] # [[1, 1, 1, 1], [0, 0, 0, 0], [0, 0, 0, 0]]"
    by simp
  from spawn_placement_order [OF fallback_board_wf free_state_wf n,
      of "[0, 0, 0, 0]" "[[1, 1, 1, 1], [0, 0, 0, 0], [0, 0, 0, 0]]"]
  have "spawn_place fallback_board (SHAPES PieceI) = Inr (Some (0, 0))"
    unfolding sh [symmetric] fallback_find by blast
  with fallback_board_wf free_state_wf n spawn_order_spec_I show ?thesis
    by blast
qed

section \<open>lock_piece\<close>

lemma count_cleared_fields:
  "lines (count_cleared s c) = lines s + c"
  "score (count_cleared s c) = score s + 100 * c * level s"
  "level (count_cleared s c) = 1 + (lines s + c) div 10"
  "board (count_cleared s c) = board s"
  "paused (count_cleared s c) = paused s"
  "game_over (count_cleared s c) = game_over s"
  "current_shape (count_cleared s c) = current_shape s"
  "next_type (count_cleared s c) = next_type s"
  by (simp_all add: count_cleared_def save_stats_def Let_def)

lemma lock_piece_unfold:
  assumes "merge (current_shape s) (board s) (pos_x s, pos_y s) = Inr merged"
    and "clear_lines merged = (new_rows, c)"
  shows "lock_piece s draw =
           spawn_new (if c \<noteq> 0 then count_cleared (s\<lparr>board := new_rows\<rparr>) c
                      else s\<lparr>board := new_rows\<rparr>) draw"
  by (simp add: lock_piece_def assms Let_def)

text \<open>
  Claim C6. A lock that clears \<open>c \<ge> 1\<close> rows at level \<open>L\<close> adds \<open>100 * c * L\<close> to the
  score and \<open>c\<close> to the lines, and then sets the level to \<open>1 + lines div 10\<close>; a lock
  that clears no row leaves score, lines and level as they were. Three rows at level 2
  add 600 points.
\<close>

theorem lock_piece_scoring:
  assumes "merge (current_shape s) (board s) (pos_x s, pos_y s) = Inr merged"
    and "clear_lines merged = (new_rows, c)"
    and "lock_piece s draw = Inr s'"
  shows "(1 \<le> c \<longrightarrow> score s' = score s + 100 * c * level s \<and> lines s' = lines s + c \<and>
                     level s' = 1 + lines s' div 10) \<and>
         (c = 0 \<longrightarrow> score s' = score s \<and> lines s' = lines s \<and> level s' = level s) \<and>
         (c = 3 \<and> level s = 2 \<longrightarrow> score s' = score s + 600)"
proof -
  from assms have spawn:
    "spawn_new (if c \<noteq> 0 then count_cleared (s\<lparr>board := new_rows\<rparr>) c
                else s\<lparr>board := new_rows\<rparr>) draw = Inr s'"
    by (simp add: lock_piece_unfold)
  show ?thesis
    using spawn_new_counters(1-3) [OF spawn]
    by (simp add: count_cleared_fields)
qed

lemma three_rows_merge:
  "(case merge (current_shape three_rows_state) (board three_rows_state)
           (pos_x three_rows_state, pos_y three_rows_state) of
      Inl e \<Rightarrow> False
    | Inr merged \<Rightarrow> snd (clear_lines merged) = 3)"
  by code_simp

lemma three_rows_lock:
  "(case lock_piece three_rows_state PieceT of Inl e \<Rightarrow> False | Inr s' \<Rightarrow> True)"
  by code_simp

theorem lock_piece_scoring_witness:
  "\<exists>merged new_rows s'.
      merge (current_shape three_rows_state) (board three_rows_state)
        (pos_x three_rows_state, pos_y three_rows_state) = Inr merged \<and>
      clear_lines merged = (new_rows, 3) \<and>
      lock_piece three_rows_state PieceT = Inr s' \<and>
      score three_rows_state = 1000 \<and> level three_rows_state = 2 \<and>
      score s' = 1600 \<and> lines s' = 13 \<and> level s' = 2"
proof -
  from three_rows_merge obtain merged where
    m: "merge (current_shape three_rows_state) (board three_rows_state)
          (pos_x three_rows_state, pos_y three_rows_state) = Inr merged"
    and c: "snd (clear_lines merged) = 3"
    by (auto split: sum.splits)
  from c obtain new_rows where cl: "clear_lines merged = (new_rows, 3)"
    by (cases "clear_lines merged") simp
  from three_rows_lock obtain s' where l: "lock_piece three_rows_state PieceT = Inr s'"
    by (auto split: sum.splits)
  have fields: "score three_rows_state = 1000" "level three_rows_state = 2"
    "lines three_rows_state = 10"
    by (simp_all add: three_rows_state_def)
  from lock_piece_scoring [OF m cl l]
  have "score s' = 1600 \<and> lines s' = 13 \<and> level s' = 2"
    by (simp add: fields)
  with m cl l fields show ?thesis
    by blast
qed

section \<open>The loop of hard_drop\<close>

lemma collide_row_floor:
  assumes "list_ex (\<lambda>cell. cell \<noteq> 0) row" "TOTAL_ROWS \<le> by"
  shows "collide_row b off_x by x row = Inr True"
  using assms(1)
proof (induction row arbitrary: x)
  case Nil
  then show ?case by simp
next
  case (Cons cell row)
  show ?case
  proof (cases "cell = 0")
    case True
    with Cons show ?thesis by simp
  next
    case False
    with assms(2) show ?thesis by (simp add: Let_def)
  qed
qed

lemma collide_rows_floor:
  assumes "j < length rows" "list_ex (\<lambda>cell. cell \<noteq> 0) (rows ! j)"
    "TOTAL_ROWS \<le> off_y + y + int j"
  shows "collide_rows b off_x off_y y rows \<noteq> Inr False"
  using assms
proof (induction rows arbitrary: y j)
  case Nil
  then show ?case by simp
next
  case (Cons row rows)
  show ?case
  proof (cases j)
    case 0
    with Cons.prems have "collide_row b off_x (off_y + y) 0 row = Inr True"
      by (intro collide_row_floor) simp_all
    then show ?thesis by simp
  next
    case (Suc j')
    with Cons.prems have "collide_rows b off_x off_y (y + 1) rows \<noteq> Inr False"
      by (intro Cons.IH [of j']) (simp_all add: add.assoc)
    then show ?thesis
      by (cases "collide_row b off_x (off_y + y) 0 row") auto
  qed
qed

lemma has_cell_row:
  assumes "has_cell shape"
  obtains j where "j < length shape" "list_ex (\<lambda>cell. cell \<noteq> 0) (shape ! j)"
proof -
  from assms obtain row where "row \<in> set shape" "list_ex (\<lambda>cell. cell \<noteq> 0) row"
    unfolding has_cell_def list_ex_iff [of _ shape] by blast
  then show thesis
    using that by (auto simp: in_set_conv_nth)
qed

lemma collide_floor:
  assumes "j < length shape" "list_ex (\<lambda>cell. cell \<noteq> 0) (shape ! j)"
    "TOTAL_ROWS \<le> off_y + int j"
  shows "collide b shape (off_x, off_y) \<noteq> Inr False"
  using collide_rows_floor [OF assms(1,2), of off_y 0 b off_x] assms(3)
  by (simp add: collide_def)

lemma collide_row_zero:
  "\<not> list_ex (\<lambda>cell. cell \<noteq> 0) row \<Longrightarrow> collide_row b off_x by x row = Inr False"
  by (induction row arbitrary: x) simp_all

lemma collide_rows_zero:
  "\<not> list_ex (list_ex (\<lambda>cell. cell \<noteq> 0)) rows \<Longrightarrow>
     collide_rows b off_x off_y y rows = Inr False"
  by (induction rows arbitrary: y) (simp_all add: collide_row_zero)

lemma collide_zero: "\<not> has_cell shape \<Longrightarrow> collide b shape offset = Inr False"
  by (cases offset) (simp add: collide_def has_cell_def collide_rows_zero)

lemma hard_drop_loop_terminates:
  assumes "has_cell (current_shape s)"
  shows "\<exists>r. hard_drop_loop s = Some r"
proof -
  from assms obtain j where j: "j < length (current_shape s)"
    "list_ex (\<lambda>cell. cell \<noteq> 0) (current_shape s ! j)"
    by (rule has_cell_row)
  define sh where "sh = current_shape s"
  have "current_shape t = sh \<Longrightarrow> \<exists>r. hard_drop_loop t = Some r" for t
  proof (induction "nat (TOTAL_ROWS - (pos_y t + 1 + int j))" arbitrary: t rule: less_induct)
    case less
    show ?case
    proof (cases "collide (board t) (current_shape t) (pos_x t, pos_y t + 1)")
      case (Inl e)
      then show ?thesis
        by (subst hard_drop_loop.simps) simp
    next
      case (Inr hit)
      show ?thesis
      proof (cases hit)
        case True
        with Inr show ?thesis
          by (subst hard_drop_loop.simps) simp
      next
        case False
        with Inr j less.prems have "\<not> TOTAL_ROWS \<le> pos_y t + 1 + int j"
          using collide_floor [of j "current_shape t" "pos_y t + 1" "board t" "pos_x t"]
          by (auto simp: sh_def)
        then have "nat (TOTAL_ROWS - (pos_y (t\<lparr>pos_y := pos_y t + 1\<rparr>) + 1 + int j))
                     < nat (TOTAL_ROWS - (pos_y t + 1 + int j))"
          by simp
        from less.hyps [OF this] less.prems
        have "\<exists>r. hard_drop_loop (t\<lparr>pos_y := pos_y t + 1\<rparr>) = Some r"
          by simp
        with Inr False show ?thesis
          by (subst hard_drop_loop.simps) simp
      qed
    qed
  qed
  then show ?thesis
    by (simp add: sh_def)
qed

lemma hard_drop_loop_has_cell:
  assumes "hard_drop_loop s = Some r"
  shows "has_cell (current_shape s)"
  using assms
proof (induction rule: hard_drop_loop.raw_induct [rotated 1, consumes 1])
  case (1 loop s r)
  show ?case
  proof (rule ccontr)
    assume zero: "\<not> has_cell (current_shape s)"
    then have "collide (board s) (current_shape s) (pos_x s, pos_y s + 1) = Inr False"
      by (rule collide_zero)
    with 1(2) have "loop (s\<lparr>pos_y := pos_y s + 1\<rparr>) = Some r"
      by simp
    from 1(1) [OF this] zero show False
      by simp
  qed
qed

lemma hard_drop_loop_result:
  assumes "hard_drop_loop s = Some r"
  shows "\<forall>s'. r = Inr s' \<longrightarrow>
           (\<exists>k. s' = s\<lparr>pos_y := pos_y s + int k\<rparr> \<and>
                (\<forall>i < k. collide (board s) (current_shape s) (pos_x s, pos_y s + 1 + int i)
                            = Inr False) \<and>
                collide (board s) (current_shape s) (pos_x s, pos_y s + int k + 1) = Inr True)"
  using assms
proof (induction rule: hard_drop_loop.raw_induct [rotated 1, consumes 1])
  case (1 loop s r)
  show ?case
  proof (cases "collide (board s) (current_shape s) (pos_x s, pos_y s + 1)")
    case (Inl e)
    with 1(2) show ?thesis by auto
  next
    case (Inr hit)
    show ?thesis
    proof (cases hit)
      case True
      with Inr 1(2) have "r = Inr s" by simp
      moreover have "s = s\<lparr>pos_y := pos_y s + int 0\<rparr>" by simp
      ultimately show ?thesis
        using Inr True by (intro allI impI exI [of _ 0]) simp
    next
      case False
      with Inr 1(2) have "loop (s\<lparr>pos_y := pos_y s + 1\<rparr>) = Some r" by simp
      note ih = 1(1) [OF this]
      show ?thesis
      proof (intro allI impI)
        fix s' assume "r = Inr s'"
        with ih obtain k where k: "s' = s\<lparr>pos_y := pos_y s + 1 + int k\<rparr>"
          "\<forall>i < k. collide (board s) (current_shape s) (pos_x s, pos_y s + 1 + 1 + int i)
                      = Inr False"
          "collide (board s) (current_shape s) (pos_x s, pos_y s + 1 + int k + 1) = Inr True"
          by auto
        have "\<forall>i < Suc k. collide (board s) (current_shape s) (pos_x s, pos_y s + 1 + int i)
                      = Inr False"
        proof (intro allI impI)
          fix i assume "i < Suc k"
          then show "collide (board s) (current_shape s) (pos_x s, pos_y s + 1 + int i)
                      = Inr False"
            using Inr False k(2) by (cases i) (simp_all add: add.assoc add.commute add.left_commute)
        qed
        moreover have "s' = s\<lparr>pos_y := pos_y s + int (Suc k)\<rparr>"
          using k(1) by (simp add: add.assoc add.commute add.left_commute)
        moreover have "collide (board s) (current_shape s) (pos_x s, pos_y s + int (Suc k) + 1)
                         = Inr True"
          using k(3) by (simp add: add.assoc add.commute add.left_commute)
        ultimately show "\<exists>k. s' = s\<lparr>pos_y := pos_y s + int k\<rparr> \<and>
                (\<forall>i < k. collide (board s) (current_shape s) (pos_x s, pos_y s + 1 + int i)
                            = Inr False) \<and>
                collide (board s) (current_shape s) (pos_x s, pos_y s + int k + 1) = Inr True"
          by blast
      qed
    qed
  qed
qed

lemma hard_drop_loop_no_error:
  assumes "hard_drop_loop s = Some r"
  shows "wf_board (board s) \<longrightarrow> (\<exists>s'. r = Inr s')"
  using assms
proof (induction rule: hard_drop_loop.raw_induct [rotated 1, consumes 1])
  case (1 loop s r)
  show ?case
  proof
    assume wf: "wf_board (board s)"
    then obtain hit where hit: "collide (board s) (current_shape s) (pos_x s, pos_y s + 1) = Inr hit"
      using collide_total by blast
    show "\<exists>s'. r = Inr s'"
    proof (cases hit)
      case True
      with hit 1(2) show ?thesis by auto
    next
      case False
      with hit 1(2) have "loop (s\<lparr>pos_y := pos_y s + 1\<rparr>) = Some r" by simp
      from 1(1) [OF this] wf show ?thesis by simp
    qed
  qed
qed

lemma spawn_new_total:
  assumes "wf_board (board s)"
  shows "\<exists>s'. spawn_new s draw = Inr s'"
  by (simp add: spawn_new_wf [OF assms])

lemma lock_piece_total:
  assumes "wf_board (board s)"
  shows "\<exists>s'. lock_piece s draw = Inr s'"
proof -
  from merge_wf [OF assms] obtain merged where
    m: "merge (current_shape s) (board s) (pos_x s, pos_y s) = Inr merged" "wf_board merged"
    by blast
  obtain new_rows c where cl: "clear_lines merged = (new_rows, c)"
    by (cases "clear_lines merged")
  with clear_lines_wf [OF m(2)] have "wf_board new_rows" by simp
  then have "wf_board (board (if c \<noteq> 0 then count_cleared (s\<lparr>board := new_rows\<rparr>) c
                      else s\<lparr>board := new_rows\<rparr>))"
    by (simp add: count_cleared_fields)
  from spawn_new_total [OF this] show ?thesis
    by (simp add: lock_piece_unfold [OF m(1) cl])
qed

text \<open>
  Claim C10. On every board and from every position, the loop of \<open>hard_drop\<close> ends
  when the shape has a nonzero cell, and so does \<open>hard_drop\<close>; on a well-formed board
  it ends without an exception. With a shape of zeros only the loop never ends.
\<close>

theorem hard_drop_terminates:
  "(has_cell (current_shape s) \<longrightarrow>
      (\<exists>r. hard_drop_loop s = Some r) \<and> (\<exists>r. hard_drop s draw = Some r) \<and>
      (wf_board (board s) \<longrightarrow> (\<exists>s'. hard_drop s draw = Some (Inr s')))) \<and>
   (\<not> has_cell (current_shape s) \<longrightarrow> hard_drop_loop s = None \<and> hard_drop s draw = None)"
proof (cases "has_cell (current_shape s)")
  case True
  then obtain r where r: "hard_drop_loop s = Some r"
    using hard_drop_loop_terminates by blast
  then have some: "\<exists>r. hard_drop s draw = Some r"
    by (cases r) (simp_all add: hard_drop_def)
  have "\<exists>s'. hard_drop s draw = Some (Inr s')" if wf: "wf_board (board s)"
  proof -
    from hard_drop_loop_no_error [OF r] wf obtain s1 where s1: "r = Inr s1"
      by blast
    with hard_drop_loop_result [OF r] have "board s1 = board s"
      by auto
    with wf lock_piece_total [of s1 draw] obtain s' where "lock_piece s1 draw = Inr s'"
      by auto
    with r s1 show ?thesis
      by (simp add: hard_drop_def)
  qed
  with True r some show ?thesis
    by blast
next
  case False
  then have "hard_drop_loop s = None"
    using hard_drop_loop_has_cell [of s] by (cases "hard_drop_loop s") auto
  with False show ?thesis
    by (simp add: hard_drop_def)
qed

lemma free_state_has_cell: "has_cell (current_shape free_state)"
  by code_simp

lemma zero_shape_state_zero: "\<not> has_cell (current_shape zero_shape_state)"
  by code_simp

theorem hard_drop_terminates_witness:
  "has_cell (current_shape free_state) \<and> wf_board (board free_state) \<and>
   (\<exists>s'. hard_drop free_state PieceT = Some (Inr s')) \<and>
   \<not> has_cell (current_shape zero_shape_state) \<and>
   hard_drop zero_shape_state PieceT = None"
  using hard_drop_terminates [of free_state PieceT]
    hard_drop_terminates [of zero_shape_state PieceT]
    free_state_has_cell zero_shape_state_zero free_state_wf
  by blast

section \<open>hard_drop and repeated soft drops\<close>

lemma hard_to_soft:
  assumes "hard_drop_loop s = Some r"
  shows "soft_drop_until_locked s draw =
           (case r of Inl e \<Rightarrow> Some (Inl e) | Inr s' \<Rightarrow> Some (lock_piece s' draw))"
  using assms
proof (induction rule: hard_drop_loop.raw_induct [rotated 1, consumes 1])
  case (1 loop s r)
  show ?case
  proof (cases "collide (board s) (current_shape s) (pos_x s, pos_y s + 1)")
    case (Inl e)
    with 1(2) have "r = Inl e" by simp
    with Inl show ?thesis
      by (subst soft_drop_until_locked.simps) (simp add: soft_drop_def)
  next
    case (Inr hit)
    show ?thesis
    proof (cases hit)
      case True
      with Inr 1(2) have "r = Inr s" by simp
      with Inr True show ?thesis
        by (subst soft_drop_until_locked.simps)
          (cases "lock_piece s draw"; simp add: soft_drop_def)
    next
      case False
      with Inr 1(2) have "loop (s\<lparr>pos_y := pos_y s + 1\<rparr>) = Some r" by simp
      from 1(1) [OF this] Inr False show ?thesis
        by (subst soft_drop_until_locked.simps) (simp add: soft_drop_def)
    qed
  qed
qed

lemma soft_to_hard:
  assumes "soft_drop_until_locked s draw = Some r"
  shows "hard_drop s draw = Some r"
  using assms
proof (induction rule: soft_drop_until_locked.raw_induct [rotated 1, consumes 1])
  case (1 loop s draw r)
  show ?case
  proof (cases "collide (board s) (current_shape s) (pos_x s, pos_y s + 1)")
    case (Inl e)
    with 1(2) have "r = Inl e" by (simp add: soft_drop_def)
    moreover from Inl have "hard_drop_loop s = Some (Inl e)"
      by (subst hard_drop_loop.simps) simp
    ultimately show ?thesis by (simp add: hard_drop_def)
  next
    case (Inr hit)
    show ?thesis
    proof (cases hit)
      case True
      with Inr have "hard_drop_loop s = Some (Inr s)"
        by (subst hard_drop_loop.simps) simp
      then have "hard_drop s draw = Some (lock_piece s draw)"
        by (simp add: hard_drop_def)
      moreover from Inr True 1(2) have "r = lock_piece s draw"
        by (cases "lock_piece s draw") (simp_all add: soft_drop_def)
      ultimately show ?thesis by simp
    next
      case False
      with Inr 1(2) have "loop (s\<lparr>pos_y := pos_y s + 1\<rparr>) draw = Some r"
        by (simp add: soft_drop_def)
      from 1(1) [OF this] have "hard_drop (s\<lparr>pos_y := pos_y s + 1\<rparr>) draw = Some r" .
      moreover from Inr False have "hard_drop_loop s = hard_drop_loop (s\<lparr>pos_y := pos_y s + 1\<rparr>)"
        by (subst hard_drop_loop.simps) simp
      ultimately show ?thesis by (simp add: hard_drop_def)
    qed
  qed
qed

lemma hard_drop_eq_soft: "hard_drop s draw = soft_drop_until_locked s draw"
proof (cases "hard_drop s draw")
  case None
  then show ?thesis
    using soft_to_hard [of s draw] by (cases "soft_drop_until_locked s draw") auto
next
  case (Some r)
  then obtain r0 where r0: "hard_drop_loop s = Some r0"
    by (cases "hard_drop_loop s") (simp_all add: hard_drop_def)
  from hard_to_soft [OF r0, of draw] Some r0 show ?thesis
    by (cases r0) (auto simp: hard_drop_def)
qed

section \<open>Example runs\<close>

lemma main_init_fresh: "main_init 0 0 PieceI PieceI = Inr init_ms"
  by code_simp

lemma cave_run: "run_frames init_ms cave_frames = Some (Inr cave_ms)"
  by code_simp

lemma cave_drop:
  "hard_drop_loop (the_game cave_ms) = Some (Inr ((the_game cave_ms)\<lparr>pos_y := 17\<rparr>))"
  by code_simp

lemma cave_free:
  "collide (board (the_game cave_ms)) (current_shape (the_game cave_ms))
     (pos_x (the_game cave_ms), 20) = Inr False"
  by code_simp

lemma game_over_run: "run_frames init_ms game_over_frames = Some (Inr game_over_ms)"
  by code_simp

text \<open>
  Against claim C8 as worded: in a state the main loop reaches, the O piece over the
  enclosed gap is dropped to row 17, where the flat I piece stops it, although it would
  not collide on row 20 below: the landing row is not the greatest free row.
\<close>

theorem hard_drop_not_greatest_free_row:
  "main_init 0 0 PieceI PieceI = Inr init_ms \<and>
   run_frames init_ms cave_frames = Some (Inr cave_ms) \<and>
   hard_drop_loop (the_game cave_ms) = Some (Inr ((the_game cave_ms)\<lparr>pos_y := 17\<rparr>)) \<and>
   collide (board (the_game cave_ms)) (current_shape (the_game cave_ms))
     (pos_x (the_game cave_ms), 20) = Inr False \<and>
   (17 :: int) < 20"
  using main_init_fresh cave_run cave_drop cave_free by simp

text \<open>
  Claim C8, amended. \<open>hard_drop\<close> returns what repeated \<open>soft_drop\<close> calls return when
  continued until one reports a lock, with the same random choice (and neither returns
  when the other does not). The loop moves the piece down by some \<open>k\<close> rows, each of
  which was free, to the first row whose successor collides, and the lock follows from
  there.
\<close>

theorem hard_drop_refines_soft_drops:
  "hard_drop s draw = soft_drop_until_locked s draw \<and>
   (\<forall>s1. hard_drop_loop s = Some (Inr s1) \<longrightarrow>
      hard_drop s draw = Some (lock_piece s1 draw) \<and>
      (\<exists>k. s1 = s\<lparr>pos_y := pos_y s + int k\<rparr> \<and>
           (\<forall>i < k. collide (board s) (current_shape s) (pos_x s, pos_y s + 1 + int i)
                       = Inr False) \<and>
           collide (board s) (current_shape s) (pos_x s, pos_y s + int k + 1) = Inr True))"
proof -
  have "hard_drop s draw = Some (lock_piece s1 draw) \<and>
      (\<exists>k. s1 = s\<lparr>pos_y := pos_y s + int k\<rparr> \<and>
           (\<forall>i < k. collide (board s) (current_shape s) (pos_x s, pos_y s + 1 + int i)
                       = Inr False) \<and>
           collide (board s) (current_shape s) (pos_x s, pos_y s + int k + 1) = Inr True)"
    if "hard_drop_loop s = Some (Inr s1)" for s1
    using hard_drop_loop_result [OF that] that by (simp add: hard_drop_def)
  with hard_drop_eq_soft [of s draw] show ?thesis
    by blast
qed

lemma cave_hard_drop:
  "(case hard_drop (the_game cave_ms) PieceT of Some (Inr s') \<Rightarrow> True | _ \<Rightarrow> False)"
  by code_simp

theorem hard_drop_refines_soft_drops_witness:
  "hard_drop_loop (the_game cave_ms) = Some (Inr ((the_game cave_ms)\<lparr>pos_y := 17\<rparr>)) \<and>
   (\<exists>s'. hard_drop (the_game cave_ms) PieceT = Some (Inr s') \<and>
         soft_drop_until_locked (the_game cave_ms) PieceT = Some (Inr s') \<and>
         lock_piece ((the_game cave_ms)\<lparr>pos_y := 17\<rparr>) PieceT = Inr s')"
proof -
  from cave_hard_drop obtain s' where s': "hard_drop (the_game cave_ms) PieceT = Some (Inr s')"
    by (auto split: option.splits sum.splits)
  from hard_drop_refines_soft_drops [of "the_game cave_ms" PieceT] cave_drop s'
  have "soft_drop_until_locked (the_game cave_ms) PieceT = Some (Inr s')"
    "lock_piece ((the_game cave_ms)\<lparr>pos_y := 17\<rparr>) PieceT = Inr s'"
    by auto
  with cave_drop s' show ?thesis
    by blast
qed

section \<open>Pause and game over\<close>

lemma game_over_ms_fields:
  "game_over (the_game game_over_ms)" "\<not> paused (the_game game_over_ms)"
  "running game_over_ms"
  by (simp_all add: game_over_ms_def)

lemma handle_key_pause:
  "handle_key ms draw K_p =
     Some (Inr (ms\<lparr>the_game := (the_game ms)\<lparr>paused := \<not> paused (the_game ms)\<rparr>\<rparr>))"
  by (simp add: handle_key_def Let_def)

lemma pause_then_reset:
  "(case run_frames game_over_ms [[(PieceI, KEYDOWN K_p)], [(PieceI, KEYDOWN K_r)]] of
      Some (Inr ms) \<Rightarrow> paused (the_game ms) \<and> \<not> game_over (the_game ms)
    | _ \<Rightarrow> False)"
  by code_simp

text \<open>
  Against claim C7 as worded: the main loop reaches a state with \<open>game_over\<close> set, in
  which the P key sets \<open>paused\<close>; the R key pressed next clears \<open>game_over\<close>, and the game
  is paused and not over.
\<close>

theorem pause_accepted_when_game_over:
  "main_init 0 0 PieceI PieceI = Inr init_ms \<and>
   run_frames init_ms game_over_frames = Some (Inr game_over_ms) \<and>
   game_over (the_game game_over_ms) \<and> \<not> paused (the_game game_over_ms) \<and>
   handle_event game_over_ms (PieceI, KEYDOWN K_p) =
     Some (Inr (game_over_ms\<lparr>the_game := (the_game game_over_ms)\<lparr>paused := True\<rparr>\<rparr>)) \<and>
   (case run_frames game_over_ms [[(PieceI, KEYDOWN K_p)], [(PieceI, KEYDOWN K_r)]] of
      Some (Inr ms) \<Rightarrow> paused (the_game ms) \<and> \<not> game_over (the_game ms)
    | _ \<Rightarrow> False)"
  using main_init_fresh game_over_run game_over_ms_fields pause_then_reset
  by (simp add: handle_event_def handle_key_pause)

lemma new_board_spawn_free:
  "find (free_column new_board (SHAPES t) (spawn_y_spec (SHAPES t)))
     (find_spawn_x_order (int (length (hd (SHAPES t))))) \<noteq> None"
  by (cases t; simp only: ; code_simp)

lemma reset_clears_game_over: "\<exists>s'. reset s draw = Inr s' \<and> \<not> game_over s'"
proof -
  define s0 where
    "s0 = s\<lparr>board := new_board, score := 0, level := 1, lines := 0, game_over := False\<rparr>"
  have fields: "board s0 = new_board" "game_over s0 = False"
    by (simp_all add: s0_def)
  from new_board_spawn_free [of "next_type s0"] obtain x where
    x: "find (free_column new_board (SHAPES (next_type s0)) (spawn_y_spec (SHAPES (next_type s0))))
          (find_spawn_x_order (int (length (hd (SHAPES (next_type s0)))))) = Some x"
    by blast
  have "wf_board (board s0)"
    by (simp add: fields wf_new_board)
  from spawn_new_wf [OF this, of draw] x fields
  have "\<exists>s'. spawn_new s0 draw = Inr s' \<and> \<not> game_over s'"
    by simp
  then show ?thesis
    by (simp add: reset_def s0_def)
qed

text \<open>
  Claim C7, amended. The P key toggles \<open>paused\<close> in every state, also while
  \<open>game_over\<close> is set. The R key returns in every state and clears \<open>game_over\<close>,
  leaving \<open>paused\<close> as it is. While \<open>game_over\<close> is set, the gravity tick and the keys
  for move, rotate, soft drop and hard drop leave the state as it is, and \<open>game_over\<close>
  stays set under every event other than the R key.
\<close>

theorem pause_toggles_in_every_state:
  "handle_event ms (draw, KEYDOWN K_p) =
     Some (Inr (ms\<lparr>the_game := (the_game ms)\<lparr>paused := \<not> paused (the_game ms)\<rparr>\<rparr>)) \<and>
   (\<exists>ms'. handle_event ms (draw, KEYDOWN K_r) = Some (Inr ms') \<and>
          \<not> game_over (the_game ms') \<and> paused (the_game ms') = paused (the_game ms)) \<and>
   (game_over (the_game ms) \<longrightarrow>
      handle_event ms (draw, FALL_EVENT) = Some (Inr ms) \<and>
      (\<forall>k \<in> {K_LEFT, K_RIGHT, K_UP, K_DOWN, K_SPACE}.
          handle_event ms (draw, KEYDOWN k) = Some (Inr ms)) \<and>
      (\<forall>ev ms'. ev \<noteq> KEYDOWN K_r \<longrightarrow> handle_event ms (draw, ev) = Some (Inr ms') \<longrightarrow>
          game_over (the_game ms')))"
proof -
  have keep: "game_over (the_game ms')"
    if "game_over (the_game ms)" "ev \<noteq> KEYDOWN K_r" "handle_event ms (draw, ev) = Some (Inr ms')"
    for ev ms'
  proof (cases ev)
    case (KEYDOWN k)
    with that show ?thesis
      by (cases k) (auto simp: handle_event_def handle_key_def Let_def save_stats_def)
  qed (use that in \<open>auto simp: handle_event_def\<close>)
  from reset_clears_game_over [of "the_game ms" draw] obtain g where
    g: "reset (the_game ms) draw = Inr g" "\<not> game_over g"
    by blast
  from g(1) have "paused g = paused (the_game ms)"
    using spawn_new_counters(5) by (fastforce simp: reset_def)
  with g have reset_key: "\<exists>ms'. handle_event ms (draw, KEYDOWN K_r) = Some (Inr ms') \<and>
          \<not> game_over (the_game ms') \<and> paused (the_game ms') = paused (the_game ms)"
    by (simp add: handle_event_def handle_key_def with_game_def Let_def)
  have rest: "handle_event ms (draw, KEYDOWN K_p) =
     Some (Inr (ms\<lparr>the_game := (the_game ms)\<lparr>paused := \<not> paused (the_game ms)\<rparr>\<rparr>)) \<and>
   (game_over (the_game ms) \<longrightarrow>
      handle_event ms (draw, FALL_EVENT) = Some (Inr ms) \<and>
      (\<forall>k \<in> {K_LEFT, K_RIGHT, K_UP, K_DOWN, K_SPACE}.
          handle_event ms (draw, KEYDOWN k) = Some (Inr ms)) \<and>
      (\<forall>ev ms'. ev \<noteq> KEYDOWN K_r \<longrightarrow> handle_event ms (draw, ev) = Some (Inr ms') \<longrightarrow>
          game_over (the_game ms')))"
    using keep by (auto simp: handle_event_def handle_key_def Let_def)
  from rest reset_key show ?thesis
    by blast
qed

theorem pause_toggles_in_every_state_witness:
  "game_over (the_game game_over_ms) \<and>
   handle_event game_over_ms (PieceI, KEYDOWN K_p) =
     Some (Inr (game_over_ms\<lparr>the_game := (the_game game_over_ms)\<lparr>paused := True\<rparr>\<rparr>)) \<and>
   handle_event game_over_ms (PieceI, FALL_EVENT) = Some (Inr game_over_ms) \<and>
   handle_event game_over_ms (PieceI, KEYDOWN K_SPACE) = Some (Inr game_over_ms) \<and>
   (\<exists>ms'. handle_event game_over_ms (PieceI, KEYDOWN K_r) = Some (Inr ms') \<and>
          \<not> game_over (the_game ms'))"
  using pause_toggles_in_every_state [of game_over_ms PieceI] game_over_ms_fields
  by auto

section \<open>What every operation preserves\<close>

lemma orientations_closed: "list_all (\<lambda>sh. rotate sh \<in> set orientations) orientations"
  by code_simp

lemma orientations_cells: "list_all has_cell orientations"
  by code_simp

lemma rotate_orientations: "sh \<in> set orientations \<Longrightarrow> rotate sh \<in> set orientations"
  using orientations_closed by (simp add: list_all_iff)

lemma has_cell_orientations: "sh \<in> set orientations \<Longrightarrow> has_cell sh"
  using orientations_cells by (simp add: list_all_iff)

lemma SHAPES_orientations: "SHAPES t \<in> set orientations"
  by (cases t) (simp_all add: orientations_def)

lemma spawn_new_inv:
  assumes "wf_board (board s)" "level s = 1 + lines s div 10"
  shows "\<exists>s'. spawn_new s draw = Inr s' \<and> engine_inv s'"
proof -
  from spawn_new_total [OF assms(1)] obtain s' where s': "spawn_new s draw = Inr s'"
    by blast
  then have "current_shape s' = SHAPES (next_type s)"
    by (cases rule: spawn_new_cases) (simp_all add: spawn_failed_fields)
  with assms spawn_new_counters [OF s'] have "engine_inv s'"
    by (simp add: engine_inv_def SHAPES_orientations)
  with s' show ?thesis by blast
qed

lemma move_inv:
  assumes "engine_inv s"
  shows "\<exists>s'. move s dx = Inr s' \<and> engine_inv s'"
proof -
  from assms obtain hit where
    "collide (board s) (current_shape s) (pos_x s + dx, pos_y s) = Inr hit"
    using collide_total unfolding engine_inv_def by blast
  with assms show ?thesis
    by (simp add: move_def engine_inv_def)
qed

lemma rotate_piece_inv:
  assumes "engine_inv s"
  shows "\<exists>s'. rotate_piece s = Inr s' \<and> engine_inv s'"
proof -
  from assms obtain hit where
    "collide (board s) (rotate (current_shape s)) (pos_x s, pos_y s) = Inr hit"
    using collide_total unfolding engine_inv_def by blast
  with assms show ?thesis
    by (simp add: rotate_piece_def engine_inv_def Let_def rotate_orientations)
qed

lemma lock_piece_inv:
  assumes "engine_inv s"
  shows "\<exists>s'. lock_piece s draw = Inr s' \<and> engine_inv s'"
proof -
  from assms have wf: "wf_board (board s)" and lv: "level s = 1 + lines s div 10"
    by (simp_all add: engine_inv_def)
  from merge_wf [OF wf] obtain merged where
    m: "merge (current_shape s) (board s) (pos_x s, pos_y s) = Inr merged" "wf_board merged"
    by blast
  obtain new_rows c where cl: "clear_lines merged = (new_rows, c)"
    by (cases "clear_lines merged")
  with clear_lines_wf [OF m(2)] have nr: "wf_board new_rows" by simp
  define s1 where "s1 = (if c \<noteq> 0 then count_cleared (s\<lparr>board := new_rows\<rparr>) c
                      else s\<lparr>board := new_rows\<rparr>)"
  from nr lv have "wf_board (board s1)" "level s1 = 1 + lines s1 div 10"
    by (simp_all add: s1_def count_cleared_fields)
  from spawn_new_inv [OF this] show ?thesis
    unfolding lock_piece_unfold [OF m(1) cl] s1_def .
qed

lemma soft_drop_inv:
  assumes "engine_inv s"
  shows "\<exists>s' moved. soft_drop s draw = Inr (s', moved) \<and> engine_inv s'"
proof -
  from assms obtain hit where
    hit: "collide (board s) (current_shape s) (pos_x s, pos_y s + 1) = Inr hit"
    using collide_total unfolding engine_inv_def by blast
  show ?thesis
  proof (cases hit)
    case True
    from lock_piece_inv [OF assms, of draw] obtain s' where
      "lock_piece s draw = Inr s'" "engine_inv s'"
      by blast
    with hit True show ?thesis
      by (auto simp: soft_drop_def)
  next
    case False
    with hit assms show ?thesis
      by (auto simp: soft_drop_def engine_inv_def)
  qed
qed

lemma hard_drop_inv:
  assumes "engine_inv s"
  shows "\<exists>s'. hard_drop s draw = Some (Inr s') \<and> engine_inv s'"
proof -
  from assms have wf: "wf_board (board s)" and cell: "has_cell (current_shape s)"
    by (simp_all add: engine_inv_def has_cell_orientations)
  from hard_drop_loop_terminates [OF cell] obtain r where r: "hard_drop_loop s = Some r"
    by blast
  with hard_drop_loop_no_error [OF r] wf obtain s1 where s1: "hard_drop_loop s = Some (Inr s1)"
    by blast
  from hard_drop_loop_result [OF s1] obtain k where "s1 = s\<lparr>pos_y := pos_y s + int k\<rparr>"
    by blast
  with assms have "engine_inv s1"
    by (simp add: engine_inv_def)
  from lock_piece_inv [OF this, of draw] s1 show ?thesis
    by (simp add: hard_drop_def)
qed

lemma reset_inv: "\<exists>s'. reset s draw = Inr s' \<and> engine_inv s'"
  unfolding reset_def by (rule spawn_new_inv) (simp_all add: wf_new_board)

lemma update_inv:
  assumes "engine_inv s"
  shows "\<exists>s'. update s draw = Inr s' \<and> engine_inv s'"
proof (cases "game_over s \<or> paused s")
  case True
  with assms show ?thesis by (simp add: update_def)
next
  case False
  from soft_drop_inv [OF assms, of draw] obtain s' moved where
    "soft_drop s draw = Inr (s', moved)" "engine_inv s'"
    by blast
  with False show ?thesis by (simp add: update_def)
qed

lemma apply_op_inv:
  assumes "engine_inv s"
  shows "\<exists>s'. apply_op s opn = Some (Inr s') \<and> engine_inv s'"
proof (cases opn)
  case (Move dx)
  with move_inv [OF assms, of dx] show ?thesis by simp
next
  case Rotate
  with rotate_piece_inv [OF assms] show ?thesis by simp
next
  case (SoftDrop draw)
  from soft_drop_inv [OF assms, of draw] obtain s' moved where
    "soft_drop s draw = Inr (s', moved)" "engine_inv s'"
    by blast
  with SoftDrop show ?thesis by simp
next
  case (HardDrop draw)
  with hard_drop_inv [OF assms, of draw] show ?thesis by simp
next
  case (Lock draw)
  with lock_piece_inv [OF assms, of draw] show ?thesis by simp
next
  case (Reset draw)
  with reset_inv [of s draw] show ?thesis by simp
next
  case (Update draw)
  with update_inv [OF assms, of draw] show ?thesis by simp
next
  case TogglePause
  with assms show ?thesis by (simp add: engine_inv_def)
qed

lemma run_ops_inv:
  "engine_inv s \<Longrightarrow> \<exists>s'. run_ops s ops = Some (Inr s') \<and> engine_inv s'"
proof (induction ops arbitrary: s)
  case Nil
  then show ?case by simp
next
  case (Cons opn ops)
  from apply_op_inv [OF Cons.prems, of opn] obtain s1 where
    s1: "apply_op s opn = Some (Inr s1)" "engine_inv s1"
    by blast
  from Cons.IH [OF s1(2)] s1(1) show ?case by simp
qed

lemma tetris_init_inv: "\<exists>s0. tetris_init hl hli draw0 draw1 = Inr s0 \<and> engine_inv s0"
  unfolding tetris_init_def by (rule spawn_new_inv) (simp_all add: wf_new_board)

lemma one_line_run:
  "(case tetris_init 0 0 PieceI PieceI of
      Inl e \<Rightarrow> False
    | Inr s0 \<Rightarrow> (case run_ops s0 one_line_ops of
                   Some (Inr s) \<Rightarrow> lines s = 1 \<and> score s = 100
                 | _ \<Rightarrow> False))"
  by code_simp

lemma save_stats_inv: "engine_inv s \<Longrightarrow> engine_inv (save_stats s)"
  by (simp add: engine_inv_def save_stats_def)

lemma handle_key_inv:
  assumes "engine_inv (the_game ms)"
  shows "\<exists>ms'. handle_key ms draw k = Some (Inr ms') \<and> engine_inv (the_game ms')"
proof -
  let ?g = "the_game ms"
  from move_inv [OF assms, of "- 1"] obtain gl where gl: "move ?g (- 1) = Inr gl" "engine_inv gl"
    by blast
  from move_inv [OF assms, of 1] obtain gr where gr: "move ?g 1 = Inr gr" "engine_inv gr"
    by blast
  from rotate_piece_inv [OF assms] obtain gu where gu: "rotate_piece ?g = Inr gu" "engine_inv gu"
    by blast
  from soft_drop_inv [OF assms, of draw] obtain gd moved where
    gd: "soft_drop ?g draw = Inr (gd, moved)" "engine_inv gd"
    by blast
  from hard_drop_inv [OF assms, of draw] obtain gs where
    gs: "hard_drop ?g draw = Some (Inr gs)" "engine_inv gs"
    by blast
  from reset_inv [of ?g draw] obtain gn where gn: "reset ?g draw = Inr gn" "engine_inv gn"
    by blast
  have gp: "engine_inv (?g\<lparr>paused := \<not> paused ?g\<rparr>)"
    using assms by (simp add: engine_inv_def)
  show ?thesis
    using assms gl gr gu gd gs gn gp save_stats_inv [OF assms]
    by (cases k) (simp_all add: handle_key_def with_game_def Let_def)
qed

lemma handle_event_inv:
  assumes "engine_inv (the_game ms)"
  shows "\<exists>ms'. handle_event ms de = Some (Inr ms') \<and> engine_inv (the_game ms')"
proof (cases de)
  case (Pair draw ev)
  show ?thesis
  proof (cases ev)
    case QUIT
    with Pair assms show ?thesis by (simp add: handle_event_def)
  next
    case FALL_EVENT
    from update_inv [OF assms, of draw] obtain g' where
      "update (the_game ms) draw = Inr g'" "engine_inv g'"
      by blast
    with Pair FALL_EVENT assms show ?thesis
      by (simp add: handle_event_def Let_def)
  next
    case (KEYDOWN k)
    with Pair handle_key_inv [OF assms, of draw k] show ?thesis
      by (simp add: handle_event_def)
  next
    case OTHER_EVENT
    with Pair assms show ?thesis by (simp add: handle_event_def)
  qed
qed

lemma run_frame_inv:
  "engine_inv (the_game ms) \<Longrightarrow>
     \<exists>ms'. run_frame ms des = Some (Inr ms') \<and> engine_inv (the_game ms')"
proof (induction des arbitrary: ms)
  case Nil
  then show ?case by simp
next
  case (Cons de des)
  from handle_event_inv [OF Cons.prems, of de] obtain ms1 where
    ms1: "handle_event ms de = Some (Inr ms1)" "engine_inv (the_game ms1)"
    by blast
  from Cons.IH [OF ms1(2)] ms1(1) show ?case by simp
qed

lemma run_frames_inv:
  "engine_inv (the_game ms) \<Longrightarrow>
     \<exists>ms'. run_frames ms frames = Some (Inr ms') \<and> engine_inv (the_game ms')"
proof (induction frames arbitrary: ms)
  case Nil
  then show ?case by simp
next
  case (Cons frame frames)
  from run_frame_inv [OF Cons.prems, of frame] obtain ms1 where
    ms1: "run_frame ms frame = Some (Inr ms1)" "engine_inv (the_game ms1)"
    by blast
  from Cons.IH [OF ms1(2)] ms1(1) Cons.prems show ?case by simp
qed

text \<open>
  Claim C3. The constructor returns a state, every sequence of operations (move,
  rotate, soft drop, hard drop, lock, reset, gravity tick, pause) runs from it to its
  end without an exception, and in the state reached the level is
  \<open>1 + lines div 10\<close>: level 1 at 9 lines, level 2 at 10, level 3 at 29. The same holds
  of every run of the main loop.
\<close>

theorem level_follows_lines:
  "\<exists>s0 ms0. tetris_init hl hli draw0 draw1 = Inr s0 \<and>
     (\<forall>ops. \<exists>s. run_ops s0 ops = Some (Inr s) \<and> level s = 1 + lines s div 10) \<and>
     main_init hl hli draw0 draw1 = Inr ms0 \<and> the_game ms0 = s0 \<and>
     (\<forall>frames. \<exists>ms. run_frames ms0 frames = Some (Inr ms) \<and>
                 level (the_game ms) = 1 + lines (the_game ms) div 10)"
proof -
  from tetris_init_inv obtain s0 where
    s0: "tetris_init hl hli draw0 draw1 = Inr s0" "engine_inv s0"
    by blast
  define ms0 where "ms0 = \<lparr>the_game = s0, running = True, fall_speed = speed_of s0\<rparr>"
  have ms0: "main_init hl hli draw0 draw1 = Inr ms0" "the_game ms0 = s0"
    by (simp_all add: main_init_def s0(1) ms0_def)
  have ops: "\<exists>s. run_ops s0 ops = Some (Inr s) \<and> level s = 1 + lines s div 10" for ops
    using run_ops_inv [OF s0(2), of ops] by (auto simp: engine_inv_def)
  have frames: "\<exists>ms. run_frames ms0 frames = Some (Inr ms) \<and>
                 level (the_game ms) = 1 + lines (the_game ms) div 10" for frames
    using run_frames_inv [of ms0 frames] s0(2) ms0(2) by (auto simp: engine_inv_def)
  from s0(1) ms0 ops frames show ?thesis
    by blast
qed

theorem level_follows_lines_witness:
  "\<exists>s0 s. tetris_init 0 0 PieceI PieceI = Inr s0 \<and>
          run_ops s0 one_line_ops = Some (Inr s) \<and>
          lines s = 1 \<and> score s = 100 \<and> level s = 1"
proof -
  from level_follows_lines [of 0 0 PieceI PieceI] obtain s0 s where
    run: "tetris_init 0 0 PieceI PieceI = Inr s0" "run_ops s0 one_line_ops = Some (Inr s)"
    and lv: "level s = 1 + lines s div 10"
    by blast
  from one_line_run run have "lines s = 1" "score s = 100"
    by simp_all
  with run lv show ?thesis
    by auto
qed

end
